theory Spec2Isabelle
  imports Complex_Main "HOL-Library.FSet" "HOL-Library.AList"
begin

section \<open>Python values\<close>

text \<open>
  The two scripts read OpenStreetMap tags out of attribute dictionaries
  (\<^verbatim>\<open>Dict[str, Any]\<close>). A tag value is one of Python's scalar values or a list of them.
  A Python float is a double: a finite one is modelled by the real number it denotes, and
  the two infinities and the not-a-number value are values of their own. The scripts only
  cast and copy floats, they never compute with them.
\<close>

datatype pyfloat =
    Finite real
  | PosInf
  | NegInf
  | NaN

datatype pyval =
    PNone
  | PBool bool
  | PInt int
  | PFloat pyfloat
  | PStr string
  | PList "pyval list"

datatype error =
    KeyError string
  | TypeError
  | ValueError
  | OverflowError
  | OSError string

text \<open>
  A Python dict with string keys is an association list in insertion order:
  \<open>map_of\<close> reads it, \<open>AList.update\<close> is \<^verbatim>\<open>d[k] = v\<close> (it overwrites in place or
  appends), \<open>length\<close> is \<^verbatim>\<open>len(d)\<close> and \<open>map fst\<close> is the iteration over its keys.
\<close>

type_synonym 'v dict = "(string \<times> 'v) list"

type_synonym attrs = "pyval dict"

text \<open>\<^verbatim>\<open>k in d\<close>\<close>

definition contains :: "'v dict \<Rightarrow> string \<Rightarrow> bool" where
  "contains d k = (map_of d k \<noteq> None)"

text \<open>\<^verbatim>\<open>d.get(k, default)\<close>: the stored value when the key is present, whatever it is.\<close>

definition get :: "'v dict \<Rightarrow> string \<Rightarrow> 'v \<Rightarrow> 'v" where
  "get d k dflt = (case map_of d k of None \<Rightarrow> dflt | Some v \<Rightarrow> v)"

text \<open>\<^verbatim>\<open>d[k]\<close>: raises \<^verbatim>\<open>KeyError\<close> when the key is absent.\<close>

definition subscript :: "'v dict \<Rightarrow> string \<Rightarrow> error + 'v" where
  "subscript d k = (case map_of d k of None \<Rightarrow> Inl (KeyError k) | Some v \<Rightarrow> Inr v)"

text \<open>
  \<^verbatim>\<open>float(n)\<close> for an int: the nearest double, ties to the even significand, and
  \<^verbatim>\<open>OverflowError\<close> when that is beyond the range of doubles. \<open>bit_length\<close> is
  \<^verbatim>\<open>int.bit_length\<close>; \<open>round_to_double\<close> keeps the 53 leading bits of a natural number
  and rounds the rest away.
\<close>

fun bit_length :: "nat \<Rightarrow> nat" where
  "bit_length n = (if n = 0 then 0 else Suc (bit_length (n div 2)))"

declare bit_length.simps [simp del]

definition round_to_double :: "nat \<Rightarrow> nat" where
  "round_to_double n =
     (let b = bit_length n in
      if b \<le> 53 then n
      else
        let shift = b - 53;
            q = n div 2 ^ shift;
            r = n mod 2 ^ shift;
            half = 2 ^ (shift - 1);
            q' = (if half < r \<or> (r = half \<and> odd q) then q + 1 else q)
        in q' * 2 ^ shift)"

definition float_of_int :: "int \<Rightarrow> error + pyfloat" where
  "float_of_int i =
     (let m = round_to_double (nat \<bar>i\<bar>) in
      if 2 ^ 1024 \<le> m then Inl OverflowError
      else Inr (Finite (if i < 0 then - real m else real m)))"

text \<open>
  \<^verbatim>\<open>float(x)\<close>. Numbers and booleans are converted, \<^verbatim>\<open>None\<close> and lists raise
  \<^verbatim>\<open>TypeError\<close>. How Python reads a float out of a string is the interpreter's business:
  it is the parameter \<open>parse\<close> (it may read an infinity or a not-a-number), and a string it
  does not read raises \<^verbatim>\<open>ValueError\<close>.
\<close>

fun py_float :: "(string \<rightharpoonup> pyfloat) \<Rightarrow> pyval \<Rightarrow> error + pyfloat" where
  "py_float parse (PFloat r) = Inr r"
| "py_float parse (PInt i) = float_of_int i"
| "py_float parse (PBool b) = Inr (Finite (if b then 1 else 0))"
| "py_float parse (PStr s) = (case parse s of None \<Rightarrow> Inl ValueError | Some r \<Rightarrow> Inr r)"
| "py_float parse PNone = Inl TypeError"
| "py_float parse (PList xs) = Inl TypeError"

text \<open>An int of at most 53 bits is a double, and its cast is exact.\<close>

lemma bit_length_le: "n < 2 ^ k \<Longrightarrow> bit_length n \<le> k"
proof (induction k arbitrary: n)
  case 0
  then show ?case by (subst bit_length.simps) simp
next
  case (Suc k)
  show ?case
  proof (cases "n = 0")
    case True
    then show ?thesis by (subst bit_length.simps) simp
  next
    case False
    from Suc.prems have "n div 2 < 2 ^ k" by simp
    from Suc.IH[OF this] False show ?thesis by (subst bit_length.simps) simp
  qed
qed

lemma float_of_int_exact:
  assumes "\<bar>i\<bar> < 2 ^ 53"
  shows "float_of_int i = Inr (Finite (of_int i))"
proof -
  define m where "m = nat \<bar>i\<bar>"
  from assms have lt: "m < 2 ^ 53" by (simp add: m_def nat_less_iff)
  have r: "round_to_double m = m"
    using bit_length_le[OF lt] by (simp add: round_to_double_def)
  have "(2::nat) ^ 53 < 2 ^ 1024" by simp
  with lt have nb: "\<not> (2::nat) ^ 1024 \<le> m" by linarith
  have v: "(if i < 0 then - real m else real m) = of_int i" by (simp add: m_def)
  have "float_of_int i =
      (if 2 ^ 1024 \<le> round_to_double m then Inl OverflowError
       else Inr (Finite (if i < 0 then - real (round_to_double m) else real (round_to_double m))))"
    unfolding float_of_int_def Let_def m_def ..
  also have "\<dots> = Inr (Finite (of_int i))"
    unfolding r using nb v by (simp only: if_False)
  finally show ?thesis .
qed

lemma float_of_int_0 [simp]: "float_of_int 0 = Inr (Finite 0)"
  using float_of_int_exact[of 0] by simp

text \<open>Truthiness, as \<^verbatim>\<open>if x\<close> and \<^verbatim>\<open>x and y\<close> test it.\<close>

fun truthy :: "pyval \<Rightarrow> bool" where
  "truthy PNone = False"
| "truthy (PBool b) = b"
| "truthy (PInt i) = (i \<noteq> 0)"
| "truthy (PFloat r) = (r \<noteq> Finite 0)"
| "truthy (PStr s) = (s \<noteq> [])"
| "truthy (PList xs) = (xs \<noteq> [])"

text \<open>
  \<^verbatim>\<open>x == 'literal'\<close> for a string literal: true exactly for the string itself.
\<close>

fun eq_str :: "pyval \<Rightarrow> string \<Rightarrow> bool" where
  "eq_str (PStr s) t = (s = t)"
| "eq_str PNone t = False"
| "eq_str (PBool b) t = False"
| "eq_str (PInt i) t = False"
| "eq_str (PFloat r) t = False"
| "eq_str (PList xs) t = False"

section \<open>Decimal rendering of integers\<close>

text \<open>
  Node identifiers and parallel-edge indices are Python ints (OpenStreetMap ids);
  \<^verbatim>\<open>str(n)\<close> and the \<^verbatim>\<open>{n}\<close> fields of an f-string print them in decimal, with a
  leading minus sign for a negative number.
\<close>

definition digit :: "nat \<Rightarrow> char" where
  "digit n = ''0123456789'' ! n"

function str_nat :: "nat \<Rightarrow> string" where
  "str_nat n = (if n < 10 then [digit n] else str_nat (n div 10) @ [digit (n mod 10)])"
  by pat_completeness auto
termination
  by (relation "measure (\<lambda>n. n)") auto

declare str_nat.simps [simp del]

definition str :: "int \<Rightarrow> string" where
  "str i = (if i < 0 then CHR ''-'' # str_nat (nat (- i)) else str_nat (nat i))"

text \<open>Decimal rendering is injective, and a dash occurs in it only as the sign.\<close>

lemma digit_inj: "m < 10 \<Longrightarrow> n < 10 \<Longrightarrow> digit m = digit n \<Longrightarrow> m = n"
  unfolding digit_def
  by (subst (asm) nth_eq_iff_index_eq) auto

lemma digit_not_dash: "n < 10 \<Longrightarrow> digit n \<noteq> CHR ''-''"
proof -
  assume "n < 10"
  then have "digit n \<in> set ''0123456789''" unfolding digit_def by (intro nth_mem) simp
  then show ?thesis by auto
qed

lemma str_nat_nonempty: "str_nat n \<noteq> []"
  by (subst str_nat.simps) simp

lemma str_nat_no_dash: "CHR ''-'' \<notin> set (str_nat n)"
proof (induction n rule: str_nat.induct)
  case (1 n)
  show ?case
  proof (cases "n < 10")
    case True
    then show ?thesis using digit_not_dash[of n] by (subst str_nat.simps) auto
  next
    case False
    then show ?thesis using 1 digit_not_dash[of "n mod 10"]
      by (subst str_nat.simps) auto
  qed
qed

lemma str_nat_inj: "str_nat m = str_nat n \<Longrightarrow> m = n"
proof (induction m arbitrary: n rule: str_nat.induct)
  case (1 m)
  show ?case
  proof (cases "m < 10")
    case True
    have "n < 10"
    proof (rule ccontr)
      assume "\<not> n < 10"
      then have "str_nat n = str_nat (n div 10) @ [digit (n mod 10)]" by (subst str_nat.simps) simp
      moreover have "str_nat m = [digit m]" using True by (subst str_nat.simps) simp
      ultimately show False using "1.prems" str_nat_nonempty[of "n div 10"] by simp
    qed
    moreover have "str_nat m = [digit m]" using True by (subst str_nat.simps) simp
    moreover have "str_nat n = [digit n]" using \<open>n < 10\<close> by (subst str_nat.simps) simp
    ultimately show ?thesis using "1.prems" True digit_inj by simp
  next
    case False
    have m: "str_nat m = str_nat (m div 10) @ [digit (m mod 10)]" using False by (subst str_nat.simps) simp
    have "\<not> n < 10"
    proof
      assume "n < 10"
      then have "str_nat n = [digit n]" by (subst str_nat.simps) simp
      then show False using m "1.prems" str_nat_nonempty[of "m div 10"] by simp
    qed
    then have n: "str_nat n = str_nat (n div 10) @ [digit (n mod 10)]" by (subst str_nat.simps) simp
    from m n "1.prems" have a: "str_nat (m div 10) = str_nat (n div 10)" and b: "digit (m mod 10) = digit (n mod 10)"
      by simp_all
    from "1.IH"[OF False a] have "m div 10 = n div 10" .
    moreover from b have "m mod 10 = n mod 10" by (intro digit_inj) simp_all
    ultimately show ?thesis by (metis div_mult_mod_eq)
  qed
qed

section \<open>Keyed-multigraph mode: \<^verbatim>\<open>generate_kista_graphology.py\<close>\<close>

text \<open>
  The raw graph is what the loops read: the sequence \<^verbatim>\<open>G.nodes(data=True)\<close> of
  (node, attrs) pairs and the sequence \<^verbatim>\<open>G.edges(keys=True, data=True)\<close> of
  (u, v, key, attrs) tuples.
\<close>

type_synonym raw_node = "int \<times> attrs"
type_synonym raw_keyed_edge = "int \<times> int \<times> int \<times> attrs"

record graphology_node =
  gn_key :: string
  gn_lat :: pyfloat
  gn_lng :: pyfloat
  gn_highway :: pyval
  gn_name :: pyval

record graphology_edge =
  ge_key :: string
  ge_source :: string
  ge_target :: string
  ge_highway :: pyval
  ge_length :: pyfloat
  ge_surface :: pyval
  ge_foot :: pyval

record graphology_data =
  gd_nodes :: "graphology_node list"
  gd_edges :: "graphology_edge list"

text \<open>The body of the node loop: one entry of \<^verbatim>\<open>data["nodes"]\<close>.\<close>

definition graphology_node_of :: "(string \<rightharpoonup> pyfloat) \<Rightarrow> raw_node \<Rightarrow> error + graphology_node" where
  "graphology_node_of parse na =
     (case subscript (snd na) ''y'' of Inl e \<Rightarrow> Inl e | Inr y \<Rightarrow>
      case py_float parse y of Inl e \<Rightarrow> Inl e | Inr la \<Rightarrow>
      case subscript (snd na) ''x'' of Inl e \<Rightarrow> Inl e | Inr x \<Rightarrow>
      case py_float parse x of Inl e \<Rightarrow> Inl e | Inr lo \<Rightarrow>
        Inr \<lparr> gn_key = str (fst na), gn_lat = la, gn_lng = lo,
              gn_highway = get (snd na) ''highway'' (PStr ''intersection''),
              gn_name = get (snd na) ''name'' (PStr []) \<rparr>)"

fun graphology_nodes :: "(string \<rightharpoonup> pyfloat) \<Rightarrow> raw_node list \<Rightarrow> error + graphology_node list" where
  "graphology_nodes parse [] = Inr []"
| "graphology_nodes parse (na # rest) =
     (case graphology_node_of parse na of Inl e \<Rightarrow> Inl e | Inr n \<Rightarrow>
      case graphology_nodes parse rest of Inl e \<Rightarrow> Inl e | Inr ns \<Rightarrow> Inr (n # ns))"

text \<open>\<^verbatim>\<open>base_key = f"{u}-{v}-{key}"\<close>\<close>

definition base_key :: "int \<Rightarrow> int \<Rightarrow> int \<Rightarrow> string" where
  "base_key u v k = str u @ ''-'' @ str v @ ''-'' @ str k"

text \<open>\<^verbatim>\<open>f"{base_key}-{i}"\<close>\<close>

definition suffixed :: "string \<Rightarrow> nat \<Rightarrow> string" where
  "suffixed b i = b @ ''-'' @ str (int i)"

text \<open>
  The inner \<^verbatim>\<open>while edge_key in edge_seen\<close> loop, with its two variables
  \<open>edge_key\<close> and \<open>i\<close>; it is entered with \<open>edge_key = base_key\<close> and \<open>i = 1\<close>.
  The set \<open>edge_seen\<close> is finite, which is why the loop ends.
\<close>

function unique_key :: "string \<Rightarrow> string fset \<Rightarrow> string \<Rightarrow> nat \<Rightarrow> string" where
  "unique_key b edge_seen edge_key i =
     (if edge_key |\<in>| edge_seen then unique_key b edge_seen (suffixed b i) (i + 1)
      else edge_key)"
  by pat_completeness auto
termination
proof (relation "measure (\<lambda>(b, seen, ek, i). 2 * card {s \<in> fset seen. \<exists>j\<ge>i. s = suffixed b j} + (if ek |\<in>| seen then 1 else 0))")
  show "wf (measure (\<lambda>(b, seen, ek, i). 2 * card {s \<in> fset seen. \<exists>j\<ge>i. s = suffixed b j} + (if ek |\<in>| seen then 1 else 0)))" by simp
next
  fix b :: string and edge_seen :: "string fset" and edge_key :: string and i :: nat
  assume ek: "edge_key |\<in>| edge_seen"
  let ?A = "\<lambda>i. {s \<in> fset edge_seen. \<exists>j\<ge>i. s = suffixed b j}"
  have fin: "finite (?A i)" by simp
  have sub: "?A (i + 1) \<subseteq> ?A i" using Suc_leD by fastforce
  have inj: "\<And>j. suffixed b j = suffixed b i \<Longrightarrow> j = i"
    by (auto simp: suffixed_def str_def dest: str_nat_inj)
  show "((b, edge_seen, suffixed b i, i + 1), (b, edge_seen, edge_key, i)) \<in> measure (\<lambda>(b, seen, ek, i). 2 * card {s \<in> fset seen. \<exists>j\<ge>i. s = suffixed b j} + (if ek |\<in>| seen then 1 else 0))"
  proof (cases "suffixed b i |\<in>| edge_seen")
    case True
    have "suffixed b i \<in> ?A i" using True by auto
    moreover have "suffixed b i \<notin> ?A (i + 1)" using inj by fastforce
    ultimately have "?A (i + 1) \<subset> ?A i" using sub by blast
    then have "card (?A (i + 1)) < card (?A i)" using fin by (rule psubset_card_mono[rotated])
    then show ?thesis using ek True by simp
  next
    case False
    have "card (?A (i + 1)) \<le> card (?A i)" using sub fin by (rule card_mono[rotated])
    then show ?thesis using ek False by simp
  qed
qed


declare unique_key.simps [simp del]

text \<open>
  The edge loop. \<open>edge_seen\<close> is threaded through the iterations; an exception raised
  by \<^verbatim>\<open>float\<close> abandons the whole export.
\<close>

fun graphology_edges ::
  "(string \<rightharpoonup> pyfloat) \<Rightarrow> string fset \<Rightarrow> raw_keyed_edge list \<Rightarrow> error + graphology_edge list" where
  "graphology_edges parse edge_seen [] = Inr []"
| "graphology_edges parse edge_seen ((u, v, k, data) # rest) =
     (let b = base_key u v k;
          edge_key = unique_key b edge_seen b 1
      in case py_float parse (get data ''length'' (PInt 0)) of Inl e \<Rightarrow> Inl e | Inr len \<Rightarrow>
         case graphology_edges parse (finsert edge_key edge_seen) rest of Inl e \<Rightarrow> Inl e
         | Inr es \<Rightarrow>
             Inr (\<lparr> ge_key = edge_key, ge_source = str u, ge_target = str v,
                    ge_highway = get data ''highway'' (PStr ''path''),
                    ge_length = len,
                    ge_surface = get data ''surface'' (PStr []),
                    ge_foot = get data ''foot'' (PStr ''yes'') \<rparr> # es))"

definition to_graphology_json ::
  "(string \<rightharpoonup> pyfloat) \<Rightarrow> raw_node list \<Rightarrow> raw_keyed_edge list \<Rightarrow> error + graphology_data" where
  "to_graphology_json parse G_nodes G_edges =
     (case graphology_nodes parse G_nodes of Inl e \<Rightarrow> Inl e | Inr ns \<Rightarrow>
      case graphology_edges parse {||} G_edges of Inl e \<Rightarrow> Inl e | Inr es \<Rightarrow>
        Inr \<lparr> gd_nodes = ns, gd_edges = es \<rparr>)"

section \<open>Undirected-simple mode: \<^verbatim>\<open>generate_walk_network.py\<close>\<close>

subsection \<open>The area classifier\<close>

definition determine_area_type :: "attrs \<Rightarrow> string" where
  "determine_area_type properties =
     (let highway = get properties ''highway'' (PStr []) in
      if eq_str highway ''footway'' then ''path''
      else if eq_str highway ''pedestrian'' then ''path''
      else if eq_str highway ''living_street'' then ''road''
      else if eq_str highway ''residential'' \<and> truthy (get properties ''sidewalk'' PNone)
        then ''sidewalk''
      else if list_ex (eq_str highway) [''primary'', ''secondary'', ''tertiary'']
              \<and> truthy (get properties ''sidewalk'' PNone)
        then ''sidewalk''
      else if eq_str (get properties ''leisure'' PNone) ''park'' then ''plaza''
      else ''path'')"

subsection \<open>The document\<close>

record node =
  n_id :: string
  n_lat :: pyfloat
  n_lng :: pyfloat
  n_highway :: pyval
  n_name :: pyval
  n_intersection :: pyval

record coordinate =
  c_lat :: pyfloat
  c_lng :: pyfloat

record edge =
  e_id :: string
  e_from :: string
  e_to :: string
  e_coordinates :: "coordinate list"
  e_properties :: attrs

record walkable_area =
  w_id :: string
  w_type :: string
  w_coordinates :: "coordinate list"
  w_properties :: attrs

record adjacency_entry =
  a_to :: string
  a_distance :: pyval
  a_edge_id :: string

record bounds =
  north :: real
  south :: real
  east :: real
  west :: real

record metadata =
  area :: string
  md_bounds :: bounds
  node_count :: nat
  edge_count :: nat
  generated_at :: string

record network_document =
  doc_metadata :: metadata
  doc_nodes :: "node dict"
  doc_edges :: "edge list"
  doc_walkable_areas :: "walkable_area list"
  doc_graph :: "adjacency_entry list dict"

subsection \<open>\<^verbatim>\<open>process_network_for_javascript\<close>\<close>

text \<open>
  \<^verbatim>\<open>G.to_undirected()\<close> is the graph library's; the function is modelled from the
  undirected multigraph on: its input is the sequence \<^verbatim>\<open>G_undirected.nodes(data=True)\<close>
  of (node, data) pairs and the sequence \<^verbatim>\<open>G_undirected.edges(data=True)\<close> of
  (u, v, data) triples, in which every parallel edge of a node pair has a triple of its own.
\<close>

type_synonym raw_edge = "int \<times> int \<times> attrs"

text \<open>The node loop; the dict \<open>nodes\<close> is the loop's state.\<close>

fun extract_nodes :: "(string \<rightharpoonup> pyfloat) \<Rightarrow> node dict \<Rightarrow> raw_node list \<Rightarrow> error + node dict" where
  "extract_nodes parse nodes [] = Inr nodes"
| "extract_nodes parse nodes ((node_id, data) # rest) =
     (if contains data ''y'' \<and> contains data ''x'' then
        case subscript data ''y'' of Inl e \<Rightarrow> Inl e | Inr y \<Rightarrow>
        case py_float parse y of Inl e \<Rightarrow> Inl e | Inr la \<Rightarrow>
        case subscript data ''x'' of Inl e \<Rightarrow> Inl e | Inr x \<Rightarrow>
        case py_float parse x of Inl e \<Rightarrow> Inl e | Inr lo \<Rightarrow>
          extract_nodes parse
            (AList.update (str node_id)
               \<lparr> n_id = str node_id, n_lat = la, n_lng = lo,
                 n_highway = get data ''highway'' (PStr ''intersection''),
                 n_name = get data ''name'' (PStr []),
                 n_intersection = get data ''intersection'' (PBool False) \<rparr> nodes)
            rest
      else extract_nodes parse nodes rest)"

text \<open>\<^verbatim>\<open>f"edge_{u}_{v}"\<close>\<close>

definition edge_id :: "int \<Rightarrow> int \<Rightarrow> string" where
  "edge_id u v = ''edge_'' @ str u @ ''_'' @ str v"

text \<open>The \<^verbatim>\<open>'properties'\<close> dict literal of an edge.\<close>

definition edge_properties :: "(string \<rightharpoonup> pyfloat) \<Rightarrow> attrs \<Rightarrow> error + attrs" where
  "edge_properties parse data =
     (case py_float parse (get data ''length'' (PInt 0)) of Inl e \<Rightarrow> Inl e | Inr len \<Rightarrow>
        Inr [(''highway'', get data ''highway'' (PStr ''path'')),
             (''name'', get data ''name'' (PStr [])),
             (''length'', PFloat len),
             (''width'', get data ''width'' PNone),
             (''surface'', get data ''surface'' PNone),
             (''lit'', get data ''lit'' PNone),
             (''foot'', get data ''foot'' (PStr ''yes''))])"

text \<open>The edge loop; \<open>nodes\<close> is read only.\<close>

fun extract_edges :: "(string \<rightharpoonup> pyfloat) \<Rightarrow> node dict \<Rightarrow> raw_edge list \<Rightarrow> error + edge list" where
  "extract_edges parse nodes [] = Inr []"
| "extract_edges parse nodes ((u, v, data) # rest) =
     (if contains nodes (str u) \<and> contains nodes (str v) then
        case subscript nodes (str u) of Inl e \<Rightarrow> Inl e | Inr nu \<Rightarrow>
        case subscript nodes (str v) of Inl e \<Rightarrow> Inl e | Inr nv \<Rightarrow>
        case edge_properties parse data of Inl e \<Rightarrow> Inl e | Inr props \<Rightarrow>
        case extract_edges parse nodes rest of Inl e \<Rightarrow> Inl e | Inr es \<Rightarrow>
          Inr (\<lparr> e_id = edge_id u v, e_from = str u, e_to = str v,
                 e_coordinates = [\<lparr> c_lat = n_lat nu, c_lng = n_lng nu \<rparr>,
                                  \<lparr> c_lat = n_lat nv, c_lng = n_lng nv \<rparr>],
                 e_properties = props \<rparr> # es)
      else extract_edges parse nodes rest)"

definition walkable_area_of :: "edge \<Rightarrow> walkable_area" where
  "walkable_area_of e =
     \<lparr> w_id = e_id e, w_type = determine_area_type (e_properties e),
       w_coordinates = e_coordinates e, w_properties = e_properties e \<rparr>"

text \<open>\<^verbatim>\<open>for node_id in nodes: graph[node_id] = []\<close>\<close>

fun init_graph :: "adjacency_entry list dict \<Rightarrow> string list \<Rightarrow> adjacency_entry list dict" where
  "init_graph graph [] = graph"
| "init_graph graph (node_id # rest) = init_graph (AList.update node_id [] graph) rest"

text \<open>\<^verbatim>\<open>graph[k].append(entry)\<close>: the subscript raises when \<open>k\<close> is no key of the graph.\<close>

definition append_entry ::
  "adjacency_entry list dict \<Rightarrow> string \<Rightarrow> adjacency_entry \<Rightarrow> error + adjacency_entry list dict" where
  "append_entry graph k a =
     (case subscript graph k of Inl e \<Rightarrow> Inl e
      | Inr l \<Rightarrow> Inr (AList.update k (l @ [a]) graph))"

text \<open>The adjacency loop; the dict \<open>graph\<close> is the loop's state.\<close>

fun build_graph :: "adjacency_entry list dict \<Rightarrow> edge list \<Rightarrow> error + adjacency_entry list dict" where
  "build_graph graph [] = Inr graph"
| "build_graph graph (e # rest) =
     (case subscript graph (e_from e) of Inl err \<Rightarrow> Inl err | Inr l \<Rightarrow>
      case subscript (e_properties e) ''length'' of Inl err \<Rightarrow> Inl err | Inr d \<Rightarrow>
      case append_entry graph (e_from e) \<lparr> a_to = e_to e, a_distance = d, a_edge_id = e_id e \<rparr> of
        Inl err \<Rightarrow> Inl err
      | Inr g1 \<Rightarrow>
      case append_entry g1 (e_to e) \<lparr> a_to = e_from e, a_distance = d, a_edge_id = e_id e \<rparr> of
        Inl err \<Rightarrow> Inl err
      | Inr g2 \<Rightarrow> build_graph g2 rest)"

definition kista_bounds :: bounds where
  "kista_bounds = \<lparr> north = 59415 / 1000, south = 59390 / 1000,
                     east = 17960 / 1000, west = 17920 / 1000 \<rparr>"

definition process_network_for_javascript ::
  "(string \<rightharpoonup> pyfloat) \<Rightarrow> raw_node list \<Rightarrow> raw_edge list \<Rightarrow> error + network_document" where
  "process_network_for_javascript parse G_nodes G_edges =
     (case extract_nodes parse [] G_nodes of Inl e \<Rightarrow> Inl e | Inr nodes \<Rightarrow>
      case extract_edges parse nodes G_edges of Inl e \<Rightarrow> Inl e | Inr edges \<Rightarrow>
      case build_graph (init_graph [] (map fst nodes)) edges of Inl e \<Rightarrow> Inl e | Inr graph \<Rightarrow>
        Inr \<lparr> doc_metadata =
                \<lparr> area = ''Kista, Stockholm'', md_bounds = kista_bounds,
                  node_count = length nodes, edge_count = length edges,
                  generated_at = ''2024-01-01T00:00:00Z'' \<rparr>,
              doc_nodes = nodes, doc_edges = edges,
              doc_walkable_areas = map walkable_area_of edges,
              doc_graph = graph \<rparr>)"

subsection \<open>\<^verbatim>\<open>export_network\<close>\<close>

text \<open>
  The file system is a dict from path to content, and it is state: what a failed run has
  written stays written. What the operating system answers is the environment of a run:
  whether \<^verbatim>\<open>os.makedirs\<close> succeeds, and for each path whether \<^verbatim>\<open>open(path, 'w')\<close>
  fails, or \<^verbatim>\<open>json.dump\<close> fails after the file was opened (and so truncated), or
  both succeed (the default).
\<close>

datatype artifact =
    FullDocument network_document
  | WalkableAreas "walkable_area list"
  | Graph "adjacency_entry list dict"

datatype file_content = Complete artifact | Truncated

datatype io_outcome = Succeeds | OpenFails | DumpFails

type_synonym filesystem = "file_content dict"

text \<open>\<^verbatim>\<open>os.path.join(a, b)\<close> for a relative \<open>b\<close>.\<close>

definition path_join :: "string \<Rightarrow> string \<Rightarrow> string" where
  "path_join a b = (if a = [] then b else if last a = CHR ''/'' then a @ b else a @ ''/'' @ b)"

text \<open>\<^verbatim>\<open>with open(path, 'w') as f: json.dump(value, f, indent=2)\<close>\<close>

definition write_json ::
  "io_outcome dict \<Rightarrow> filesystem \<Rightarrow> string \<Rightarrow> artifact \<Rightarrow> filesystem \<times> (error + unit)" where
  "write_json io fs path a =
     (case get io path Succeeds of
        OpenFails \<Rightarrow> (fs, Inl (OSError path))
      | DumpFails \<Rightarrow> (AList.update path Truncated fs, Inl (OSError path))
      | Succeeds \<Rightarrow> (AList.update path (Complete a) fs, Inr ()))"

definition export_network ::
  "bool \<Rightarrow> io_outcome dict \<Rightarrow> filesystem \<Rightarrow> network_document \<Rightarrow> string
    \<Rightarrow> filesystem \<times> (error + unit)" where
  "export_network makedirs_ok io fs data output_dir =
     (if \<not> makedirs_ok then (fs, Inl (OSError output_dir))
      else
        case write_json io fs (path_join output_dir ''kista_walk_network.json'')
               (FullDocument data) of
          (fs1, Inl e) \<Rightarrow> (fs1, Inl e)
        | (fs1, Inr u1) \<Rightarrow>
        case write_json io fs1 (path_join output_dir ''walkable_areas.json'')
               (WalkableAreas (doc_walkable_areas data)) of
          (fs2, Inl e) \<Rightarrow> (fs2, Inl e)
        | (fs2, Inr u2) \<Rightarrow>
            write_json io fs2 (path_join output_dir ''walk_graph.json'')
              (Graph (doc_graph data)))"

section \<open>JSON serialization\<close>

text \<open>
  The document as the Python value it is: a tree of dicts, lists and scalars. The functions
  \<open>node_value\<close> to \<open>doc_value\<close> below are the dict literals of
  \<open>process_network_for_javascript\<close>, key by key.
\<close>

datatype pyobj =
    ONone
  | OBool bool
  | OInt int
  | OFloat pyfloat
  | OStr string
  | OList "pyobj list"
  | ODict "(string \<times> pyobj) list"

text \<open>
  \<^verbatim>\<open>json.dump\<close> and \<^verbatim>\<open>json.load\<close> belong to Python's standard library. They are
  modelled by the conversion tables of the library's documentation, on the JSON value that
  the text denotes: white space, indentation and the spelling of strings and numbers are
  left out, and the text of a finite float reads back as the same float. An int and a float
  stay apart (\<^verbatim>\<open>1\<close> and \<^verbatim>\<open>1.0\<close>), and with the default \<^verbatim>\<open>allow_nan\<close> the three
  special floats are written as \<^verbatim>\<open>NaN\<close>, \<^verbatim>\<open>Infinity\<close> and \<^verbatim>\<open>-Infinity\<close> and read
  back.
\<close>

datatype json =
    JNull
  | JBool bool
  | JInt int
  | JReal real
  | JNaN
  | JInfinity
  | JNegInfinity
  | JString string
  | JArray "json list"
  | JObject "(string \<times> json) list"

text \<open>
  A tag value as a value tree.
\<close>

primrec obj_of :: "pyval \<Rightarrow> pyobj" where
  "obj_of PNone = ONone"
| "obj_of (PBool b) = OBool b"
| "obj_of (PInt i) = OInt i"
| "obj_of (PFloat f) = OFloat f"
| "obj_of (PStr s) = OStr s"
| "obj_of (PList xs) = OList (map obj_of xs)"

fun json_of_float :: "pyfloat \<Rightarrow> json" where
  "json_of_float (Finite r) = JReal r"
| "json_of_float PosInf = JInfinity"
| "json_of_float NegInf = JNegInfinity"
| "json_of_float NaN = JNaN"

primrec json_dumps :: "pyobj \<Rightarrow> json" where
  "json_dumps ONone = JNull"
| "json_dumps (OBool b) = JBool b"
| "json_dumps (OInt i) = JInt i"
| "json_dumps (OFloat f) = json_of_float f"
| "json_dumps (OStr s) = JString s"
| "json_dumps (OList xs) = JArray (map json_dumps xs)"
| "json_dumps (ODict d) = JObject (map (map_prod id json_dumps) d)"

text \<open>
  The decoder builds a dict from the members of an object in their order; a repeated
  name overwrites.
\<close>

definition dict_of_pairs :: "(string \<times> 'v) list \<Rightarrow> 'v dict" where
  "dict_of_pairs ps = foldl (\<lambda>d kv. AList.update (fst kv) (snd kv) d) [] ps"

primrec json_loads :: "json \<Rightarrow> pyobj" where
  "json_loads JNull = ONone"
| "json_loads (JBool b) = OBool b"
| "json_loads (JInt i) = OInt i"
| "json_loads (JReal r) = OFloat (Finite r)"
| "json_loads JNaN = OFloat NaN"
| "json_loads JInfinity = OFloat PosInf"
| "json_loads JNegInfinity = OFloat NegInf"
| "json_loads (JString s) = OStr s"
| "json_loads (JArray xs) = OList (map json_loads xs)"
| "json_loads (JObject d) = ODict (dict_of_pairs (map (map_prod id json_loads) d))"

text \<open>
  Python's \<^verbatim>\<open>==\<close> on two value trees that share no object: numbers compare by value
  across bool, int and float, a not-a-number is equal to nothing, lists compare element by
  element, and dicts are equal when they have the same number of keys and every key of the
  first has an equal value in the second.
\<close>

fun float_eq :: "pyfloat \<Rightarrow> pyfloat \<Rightarrow> bool" where
  "float_eq NaN g = False"
| "float_eq f NaN = False"
| "float_eq f g = (f = g)"

fun num_of :: "pyobj \<Rightarrow> pyfloat option" where
  "num_of (OBool b) = Some (Finite (if b then 1 else 0))"
| "num_of (OInt i) = Some (Finite (of_int i))"
| "num_of (OFloat f) = Some f"
| "num_of v = None"

fun py_eq :: "pyobj \<Rightarrow> pyobj \<Rightarrow> bool" where
  "py_eq (OList xs) (OList ys) = list_all2 py_eq xs ys"
| "py_eq (ODict d) (ODict e) =
     (length d = length e
      \<and> list_all (\<lambda>kv. case map_of e (fst kv) of None \<Rightarrow> False
                          | Some w \<Rightarrow> py_eq (snd kv) w) d)"
| "py_eq (OStr s) (OStr t) = (s = t)"
| "py_eq ONone ONone = True"
| "py_eq x y =
     (case (num_of x, num_of y) of (Some f, Some g) \<Rightarrow> float_eq f g | _ \<Rightarrow> False)"

text \<open>
  A value tree that holds no not-a-number, and one all of whose dicts have distinct keys
  (every Python dict has).
\<close>

fun nan_free :: "pyobj \<Rightarrow> bool" where
  "nan_free (OFloat f) = (f \<noteq> NaN)"
| "nan_free (OList xs) = list_all nan_free xs"
| "nan_free (ODict d) = list_all (\<lambda>kv. nan_free (snd kv)) d"
| "nan_free v = True"

fun wf_obj :: "pyobj \<Rightarrow> bool" where
  "wf_obj (OList xs) = list_all wf_obj xs"
| "wf_obj (ODict d) = (distinct (map fst d) \<and> list_all (\<lambda>kv. wf_obj (snd kv)) d)"
| "wf_obj v = True"

definition attrs_value :: "attrs \<Rightarrow> pyobj" where
  "attrs_value props = ODict (map (map_prod id obj_of) props)"

definition node_value :: "node \<Rightarrow> pyobj" where
  "node_value n =
     ODict [(''id'', OStr (n_id n)), (''lat'', OFloat (n_lat n)), (''lng'', OFloat (n_lng n)),
            (''properties'',
             ODict [(''highway'', obj_of (n_highway n)), (''name'', obj_of (n_name n)),
                    (''intersection'', obj_of (n_intersection n))])]"

definition coordinate_value :: "coordinate \<Rightarrow> pyobj" where
  "coordinate_value c = ODict [(''lat'', OFloat (c_lat c)), (''lng'', OFloat (c_lng c))]"

definition edge_value :: "edge \<Rightarrow> pyobj" where
  "edge_value e =
     ODict [(''id'', OStr (e_id e)), (''from'', OStr (e_from e)), (''to'', OStr (e_to e)),
            (''coordinates'', OList (map coordinate_value (e_coordinates e))),
            (''properties'', attrs_value (e_properties e))]"

definition area_value :: "walkable_area \<Rightarrow> pyobj" where
  "area_value w =
     ODict [(''id'', OStr (w_id w)), (''type'', OStr (w_type w)),
            (''coordinates'', OList (map coordinate_value (w_coordinates w))),
            (''properties'', attrs_value (w_properties w))]"

definition entry_value :: "adjacency_entry \<Rightarrow> pyobj" where
  "entry_value a =
     ODict [(''to'', OStr (a_to a)), (''distance'', obj_of (a_distance a)),
            (''edge_id'', OStr (a_edge_id a))]"

definition metadata_value :: "metadata \<Rightarrow> pyobj" where
  "metadata_value m =
     ODict [(''area'', OStr (area m)),
            (''bounds'',
             ODict [(''north'', OFloat (Finite (north (md_bounds m)))),
                    (''south'', OFloat (Finite (south (md_bounds m)))),
                    (''east'', OFloat (Finite (east (md_bounds m)))),
                    (''west'', OFloat (Finite (west (md_bounds m))))]),
            (''node_count'', OInt (int (node_count m))),
            (''edge_count'', OInt (int (edge_count m))),
            (''generated_at'', OStr (generated_at m))]"

definition nodes_value :: "node dict \<Rightarrow> pyobj" where
  "nodes_value nodes = ODict (map (map_prod id node_value) nodes)"

definition graph_value :: "adjacency_entry list dict \<Rightarrow> pyobj" where
  "graph_value graph = ODict (map (map_prod id (\<lambda>l. OList (map entry_value l))) graph)"

definition doc_value :: "network_document \<Rightarrow> pyobj" where
  "doc_value d =
     ODict [(''metadata'', metadata_value (doc_metadata d)),
            (''nodes'', nodes_value (doc_nodes d)),
            (''edges'', OList (map edge_value (doc_edges d))),
            (''walkable_areas'', OList (map area_value (doc_walkable_areas d))),
            (''graph'', graph_value (doc_graph d))]"

section \<open>The classifier as the specification words it\<close>

text \<open>
  The rule table of the specification: an ordered list of (condition, label) pairs, the
  first condition that holds decides, and a default applies when none does. A tag
  \<open>equals\<close> a word when the bag holds that string under the tag; it is \<open>truthy_tag\<close>
  when the bag holds a truthy value under it.
\<close>

definition tag_equals :: "attrs \<Rightarrow> string \<Rightarrow> string \<Rightarrow> bool" where
  "tag_equals bag k w = (map_of bag k = Some (PStr w))"

definition truthy_tag :: "attrs \<Rightarrow> string \<Rightarrow> bool" where
  "truthy_tag bag k = (case map_of bag k of None \<Rightarrow> False | Some v \<Rightarrow> truthy v)"

fun first_match :: "(bool \<times> string) list \<Rightarrow> string \<Rightarrow> string" where
  "first_match [] dflt = dflt"
| "first_match ((c, label) # rules) dflt = (if c then label else first_match rules dflt)"

definition classifier_rules :: "attrs \<Rightarrow> (bool \<times> string) list" where
  "classifier_rules bag =
     [(tag_equals bag ''highway'' ''footway'', ''path''),
      (tag_equals bag ''highway'' ''pedestrian'', ''path''),
      (tag_equals bag ''highway'' ''living_street'', ''road''),
      (tag_equals bag ''highway'' ''residential'' \<and> truthy_tag bag ''sidewalk'', ''sidewalk''),
      ((tag_equals bag ''highway'' ''primary'' \<or> tag_equals bag ''highway'' ''secondary''
          \<or> tag_equals bag ''highway'' ''tertiary'') \<and> truthy_tag bag ''sidewalk'', ''sidewalk''),
      (tag_equals bag ''leisure'' ''park'', ''plaza'')]"

definition classify_by_rules :: "attrs \<Rightarrow> string" where
  "classify_by_rules bag = first_match (classifier_rules bag) ''path''"

section \<open>Properties\<close>

subsection \<open>Key disambiguation\<close>

lemma str_int_nat: "str (int i) = str_nat i"
  by (simp add: str_def)

lemma str_nonempty: "str i \<noteq> []"
  by (simp add: str_def str_nat_nonempty)

lemma str_inj: "str i = str j \<Longrightarrow> i = j"
proof -
  assume a: "str i = str j"
  have nd: "\<And>n. hd (str_nat n) \<noteq> CHR ''-''"
    using str_nat_no_dash str_nat_nonempty by (metis hd_in_set)
  show ?thesis
  proof (cases "i < 0"; cases "j < 0")
    assume "i < 0" "j < 0"
    with a have "nat (- i) = nat (- j)" by (auto simp: str_def dest: str_nat_inj)
    with \<open>i < 0\<close> \<open>j < 0\<close> show ?thesis by simp
  next
    assume "i < 0" "\<not> j < 0"
    with a have "str_nat (nat j) = CHR ''-'' # str_nat (nat (- i))" by (simp add: str_def)
    then have "hd (str_nat (nat j)) = CHR ''-''" by simp
    with nd show ?thesis by blast
  next
    assume "\<not> i < 0" "j < 0"
    with a have "str_nat (nat i) = CHR ''-'' # str_nat (nat (- j))" by (simp add: str_def)
    then have "hd (str_nat (nat i)) = CHR ''-''" by simp
    with nd show ?thesis by blast
  next
    assume "\<not> i < 0" "\<not> j < 0"
    with a have "nat i = nat j" by (auto simp: str_def dest: str_nat_inj)
    with \<open>\<not> i < 0\<close> \<open>\<not> j < 0\<close> show ?thesis by simp
  qed
qed

lemma last_str_nat: "last (str_nat n) \<noteq> CHR ''-''"
  using str_nat_no_dash[of n] str_nat_nonempty[of n] last_in_set by metis

lemma last_str: "last (str i) \<noteq> CHR ''-''"
  by (simp add: str_def str_nat_nonempty last_str_nat)

lemma split_at_last_dash:
  assumes "xs @ CHR ''-'' # ds = ys @ CHR ''-'' # es"
    and "CHR ''-'' \<notin> set ds" and "CHR ''-'' \<notin> set es"
  shows "xs = ys \<and> ds = es"
  using assms
  by (auto simp: append_eq_append_conv2 Cons_eq_append_conv append_eq_Cons_conv)

lemma suffixed_inj: "suffixed b i = suffixed c j \<Longrightarrow> b = c \<and> i = j"
proof -
  assume "suffixed b i = suffixed c j"
  then have "b @ CHR ''-'' # str_nat i = c @ CHR ''-'' # str_nat j"
    by (simp add: suffixed_def str_int_nat)
  from split_at_last_dash[OF this str_nat_no_dash str_nat_no_dash]
  show ?thesis by (auto dest: str_nat_inj)
qed

text \<open>
  A proof device: the number of places in a string where a dash follows a character that is
  no dash. A base key has two of them, a suffixed base key three, whatever the signs of the
  numbers are, so no base key is another base key with a suffix.
\<close>

fun seps :: "string \<Rightarrow> nat" where
  "seps [] = 0"
| "seps [a] = 0"
| "seps (a # b # xs) = (if a \<noteq> CHR ''-'' \<and> b = CHR ''-'' then 1 else 0) + seps (b # xs)"

lemma seps_append:
  "xs \<noteq> [] \<Longrightarrow>
   seps (xs @ y # ys) = seps xs + (if last xs \<noteq> CHR ''-'' \<and> y = CHR ''-'' then 1 else 0) + seps (y # ys)"
  by (induction xs rule: seps.induct) auto

lemma seps_no_dash: "CHR ''-'' \<notin> set xs \<Longrightarrow> seps xs = 0"
  by (induction xs rule: seps.induct) auto

lemma seps_dash_cons: "seps (CHR ''-'' # xs) = seps xs"
  by (cases xs) auto

lemma seps_str: "seps (str i) = 0"
  by (simp add: str_def seps_dash_cons seps_no_dash str_nat_no_dash)

lemma seps_base_key: "seps (base_key u v k) = 2"
proof -
  have "seps (str v @ CHR ''-'' # str k) = 1"
    by (simp add: seps_append str_nonempty last_str seps_str seps_dash_cons)
  then show ?thesis
    by (simp add: base_key_def seps_append str_nonempty last_str seps_str seps_dash_cons)
qed

lemma base_key_nonempty: "base_key u v k \<noteq> []"
  by (simp add: base_key_def str_nonempty)

lemma last_base_key: "last (base_key u v k) \<noteq> CHR ''-''"
  by (simp add: base_key_def str_nonempty last_str)

lemma seps_suffixed: "b \<noteq> [] \<Longrightarrow> last b \<noteq> CHR ''-'' \<Longrightarrow> seps (suffixed b i) = seps b + 1"
  by (simp add: suffixed_def seps_append seps_dash_cons seps_str)

lemma base_key_not_suffixed: "base_key u v k \<noteq> suffixed (base_key u' v' k') i"
proof
  assume "base_key u v k = suffixed (base_key u' v' k') i"
  then have "seps (base_key u v k) = seps (suffixed (base_key u' v' k') i)" by simp
  then show False
    by (simp add: seps_base_key seps_suffixed base_key_nonempty last_base_key)
qed

lemma unique_key_fresh: "unique_key b S ek i |\<notin>| S"
  by (induction b S ek i rule: unique_key.induct) (subst unique_key.simps, simp)

text \<open>
  The key of an occurrence of base key \<open>b\<close> that \<open>c\<close> occurrences of \<open>b\<close> precede:
  \<open>b\<close> itself for the first one, then \<open>b-1\<close>, \<open>b-2\<close>, and so on.
\<close>

definition numbered :: "string \<Rightarrow> nat \<Rightarrow> string" where
  "numbered b c = (if c = 0 then b else suffixed b c)"

lemma unique_key_steps:
  assumes "ek |\<in>| S" and "\<forall>j. i \<le> j \<and> j < c \<longrightarrow> suffixed b j |\<in>| S"
    and "suffixed b c |\<notin>| S" and "i \<le> c"
  shows "unique_key b S ek i = suffixed b c"
  using assms
proof (induction "c - i" arbitrary: i ek)
  case 0
  then have "i = c" by simp
  with 0 show ?case by (subst unique_key.simps, subst unique_key.simps) simp
next
  case (Suc n)
  then have lt: "i < c" by simp
  with Suc.prems have in_S: "suffixed b i |\<in>| S" by simp
  have "unique_key b S (suffixed b i) (i + 1) = suffixed b c"
    using Suc.hyps Suc.prems lt in_S by (intro Suc.hyps(1)) auto
  with Suc.prems show ?case by (subst unique_key.simps) simp
qed

lemma unique_key_numbered:
  assumes "b |\<in>| S \<longleftrightarrow> 0 < c" and "\<forall>j\<ge>1. suffixed b j |\<in>| S \<longleftrightarrow> j < c"
  shows "unique_key b S b 1 = numbered b c"
proof (cases "c = 0")
  case True
  with assms show ?thesis by (subst unique_key.simps) (simp add: numbered_def)
next
  case False
  then have "unique_key b S b 1 = suffixed b c"
    using assms by (intro unique_key_steps) auto
  with False show ?thesis by (simp add: numbered_def)
qed


text \<open>The base key of a raw edge.\<close>

definition edge_base :: "raw_keyed_edge \<Rightarrow> string" where
  "edge_base e = (case e of (u, v, k, data) \<Rightarrow> base_key u v k)"

text \<open>
  The loop invariant: after the base keys \<open>pre\<close>, \<open>edge_seen\<close> holds, for every base
  key, the keys of its occurrences so far.
\<close>

definition used :: "string list \<Rightarrow> string set" where
  "used pre = {numbered b c | b c. c < count_list pre b}"

definition is_base :: "string \<Rightarrow> bool" where
  "is_base b = (\<exists>u v k. b = base_key u v k)"

lemma used_Nil: "used [] = {}"
  by (simp add: used_def)

lemma used_snoc: "used (pre @ [b]) = insert (numbered b (count_list pre b)) (used pre)"
  unfolding used_def
  apply (rule set_eqI)
  apply (simp add: less_Suc_eq)
  apply (rule iffI)
   apply (elim exE conjE)
   apply (metis less_Suc_eq)
  apply (elim disjE exE conjE)
   apply (metis lessI)
  apply (metis less_SucI)
  done

lemma base_in_used:
  assumes "is_base b" and "\<forall>x\<in>set pre. is_base x"
  shows "b \<in> used pre \<longleftrightarrow> 0 < count_list pre b"
proof
  assume "b \<in> used pre"
  then obtain b' c' where eq: "b = numbered b' c'" and lt: "c' < count_list pre b'"
    by (auto simp: used_def)
  from lt have mem: "b' \<in> set pre" by (metis count_list_0_iff not_less_zero)
  show "0 < count_list pre b"
  proof (cases "c' = 0")
    case True
    with eq lt show ?thesis by (simp add: numbered_def)
  next
    case False
    with eq have "b = suffixed b' c'" by (simp add: numbered_def)
    moreover from mem assms(2) have "is_base b'" by blast
    ultimately show ?thesis using assms(1) by (metis is_base_def base_key_not_suffixed)
  qed
next
  assume "0 < count_list pre b"
  then have "numbered b 0 \<in> used pre" unfolding used_def by blast
  then show "b \<in> used pre" by (simp add: numbered_def)
qed

lemma suffixed_in_used:
  assumes "is_base b" and "\<forall>x\<in>set pre. is_base x" and "1 \<le> j"
  shows "suffixed b j \<in> used pre \<longleftrightarrow> j < count_list pre b"
proof
  assume "suffixed b j \<in> used pre"
  then obtain b' c' where eq: "suffixed b j = numbered b' c'" and lt: "c' < count_list pre b'"
    by (auto simp: used_def)
  from lt have mem: "b' \<in> set pre" by (metis count_list_0_iff not_less_zero)
  show "j < count_list pre b"
  proof (cases "c' = 0")
    case True
    with eq have "b' = suffixed b j" by (simp add: numbered_def)
    moreover from mem assms(2) have "is_base b'" by blast
    ultimately show ?thesis using assms(1) by (metis is_base_def base_key_not_suffixed)
  next
    case False
    with eq have "suffixed b j = suffixed b' c'" by (simp add: numbered_def)
    then have "b = b' \<and> j = c'" by (rule suffixed_inj)
    with lt show ?thesis by simp
  qed
next
  assume "j < count_list pre b"
  then have "numbered b j \<in> used pre" unfolding used_def by blast
  with assms(3) show "suffixed b j \<in> used pre" by (simp add: numbered_def)
qed

lemma unique_key_used:
  assumes "fset S = used pre" and "is_base b" and "\<forall>x\<in>set pre. is_base x"
  shows "unique_key b S b 1 = numbered b (count_list pre b)"
proof (rule unique_key_numbered)
  show "b |\<in>| S \<longleftrightarrow> 0 < count_list pre b"
    using base_in_used[OF assms(2,3)] assms(1) by simp
  show "\<forall>j\<ge>1. suffixed b j |\<in>| S \<longleftrightarrow> j < count_list pre b"
    using suffixed_in_used[OF assms(2,3)] assms(1) by simp
qed

lemma graphology_edges_keys:
  assumes "graphology_edges parse S E = Inr es" and "fset S = used pre"
    and "\<forall>x\<in>set pre. is_base x"
  shows "length es = length E \<and>
    (\<forall>j<length E. ge_key (es ! j) =
        numbered (edge_base (E ! j))
          (count_list (pre @ take j (map edge_base E)) (edge_base (E ! j))))"
  using assms
proof (induction E arbitrary: S pre es)
  case Nil
  then show ?case by simp
next
  case (Cons e E)
  obtain u v k data where e: "e = (u, v, k, data)" by (cases e) auto
  let ?b = "base_key u v k"
  let ?ek = "unique_key ?b S ?b 1"
  have base: "is_base ?b" by (auto simp: is_base_def)
  have ek: "?ek = numbered ?b (count_list pre ?b)"
    using unique_key_used[OF Cons.prems(2) base Cons.prems(3)] .
  from Cons.prems(1) e obtain len es' where
    rest: "graphology_edges parse (finsert ?ek S) E = Inr es'" and
    es: "es = \<lparr> ge_key = ?ek, ge_source = str u, ge_target = str v,
                ge_highway = get data ''highway'' (PStr ''path''),
                ge_length = len,
                ge_surface = get data ''surface'' (PStr []),
                ge_foot = get data ''foot'' (PStr ''yes'') \<rparr> # es'"
    by (auto simp: Let_def split: sum.splits)
  have inv: "fset (finsert ?ek S) = used (pre @ [?b])"
    using Cons.prems(2) ek by (simp add: used_snoc)
  have bases: "\<forall>x\<in>set (pre @ [?b]). is_base x" using Cons.prems(3) base by auto
  from Cons.IH[OF rest inv bases] have
    len: "length es' = length E" and
    keys: "\<And>j. j < length E \<Longrightarrow> ge_key (es' ! j) =
        numbered (edge_base (E ! j))
          (count_list ((pre @ [?b]) @ take j (map edge_base E)) (edge_base (E ! j)))"
    by auto
  have eb: "edge_base e = ?b" by (simp add: e edge_base_def)
  show ?case
  proof (intro conjI allI impI)
    show "length es = length (e # E)" using es len by simp
  next
    fix j assume j: "j < length (e # E)"
    show "ge_key (es ! j) =
        numbered (edge_base ((e # E) ! j))
          (count_list (pre @ take j (map edge_base (e # E))) (edge_base ((e # E) ! j)))"
    proof (cases j)
      case 0
      then show ?thesis using es ek eb by simp
    next
      case (Suc j')
      with j have "j' < length E" by simp
      from keys[OF this] show ?thesis using Suc es eb by simp
    qed
  qed
qed

lemma graphology_edges_distinct:
  "graphology_edges parse S E = Inr es \<Longrightarrow>
   distinct (map ge_key es) \<and> set (map ge_key es) \<inter> fset S = {}"
proof (induction E arbitrary: S es)
  case Nil
  then show ?case by simp
next
  case (Cons e E)
  obtain u v k data where e: "e = (u, v, k, data)" by (cases e) auto
  let ?b = "base_key u v k"
  let ?ek = "unique_key ?b S ?b 1"
  from Cons.prems e obtain x es' where
    rest: "graphology_edges parse (finsert ?ek S) E = Inr es'" and
    es: "es = x # es'" and x: "ge_key x = ?ek"
    by (auto simp: Let_def split: sum.splits)
  from Cons.IH[OF rest] have d: "distinct (map ge_key es')"
    and i: "set (map ge_key es') \<inter> fset (finsert ?ek S) = {}" by auto
  have "?ek \<notin> fset S" using unique_key_fresh[of ?b S ?b 1] by simp
  with d i es x show ?case by auto
qed

lemma str_nat_digit: "n < 10 \<Longrightarrow> str_nat n = [digit n]"
  by (subst str_nat.simps) simp

lemma str_small [simp]:
  "str 0 = ''0''" "str 1 = ''1''" "str 2 = ''2''" "str 3 = ''3''" "str 4 = ''4''"
  by (simp_all add: str_def str_nat_digit digit_def)

text \<open>
  C3. In keyed-multigraph mode every raw edge gets a key, the keys of one export are
  pairwise distinct, and the edge at position \<open>j\<close> gets its base key
  \<^verbatim>\<open>{source}-{target}-{index}\<close> undecorated when no earlier edge has the same base
  key, and the base key followed by \<open>-c\<close> when \<open>c\<close> earlier edges have it: the later
  occurrences of a base key carry the suffixes -1, -2, ... in order.
\<close>

theorem keyed_edges_numbered_in_order:
  assumes "to_graphology_json parse G_nodes G_edges = Inr d"
  shows "length (gd_edges d) = length G_edges
    \<and> distinct (map ge_key (gd_edges d))
    \<and> (\<forall>j<length G_edges. ge_key (gd_edges d ! j) =
          numbered (edge_base (G_edges ! j))
            (count_list (take j (map edge_base G_edges)) (edge_base (G_edges ! j))))"
proof -
  from assms obtain ns where es: "graphology_edges parse {||} G_edges = Inr (gd_edges d)"
    by (auto simp: to_graphology_json_def split: sum.splits)
  have "fset {||} = used []" by (simp add: used_Nil)
  from graphology_edges_keys[OF es this] graphology_edges_distinct[OF es]
  show ?thesis by simp
qed

theorem keyed_edges_numbered_in_order_witness:
  "to_graphology_json Map.empty []
      [(1, 2, 0, []), (1, 2, 0, []), (3, 4, 0, []), (1, 2, 0, [])]
    = Inr \<lparr> gd_nodes = [],
            gd_edges =
              [\<lparr> ge_key = ''1-2-0'', ge_source = ''1'', ge_target = ''2'',
                 ge_highway = PStr ''path'', ge_length = Finite 0, ge_surface = PStr [],
                 ge_foot = PStr ''yes'' \<rparr>,
               \<lparr> ge_key = ''1-2-0-1'', ge_source = ''1'', ge_target = ''2'',
                 ge_highway = PStr ''path'', ge_length = Finite 0, ge_surface = PStr [],
                 ge_foot = PStr ''yes'' \<rparr>,
               \<lparr> ge_key = ''3-4-0'', ge_source = ''3'', ge_target = ''4'',
                 ge_highway = PStr ''path'', ge_length = Finite 0, ge_surface = PStr [],
                 ge_foot = PStr ''yes'' \<rparr>,
               \<lparr> ge_key = ''1-2-0-2'', ge_source = ''1'', ge_target = ''2'',
                 ge_highway = PStr ''path'', ge_length = Finite 0, ge_surface = PStr [],
                 ge_foot = PStr ''yes'' \<rparr>] \<rparr>
   \<and> distinct [''1-2-0'', ''1-2-0-1'', ''3-4-0'', ''1-2-0-2'']
   \<and> numbered (edge_base (1, 2, 0, [])) (count_list (map edge_base [(1, 2, 0, []), (1, 2, 0, []), (3, 4, 0, [])]) (edge_base (1, 2, 0, [])))
      = ''1-2-0-2''"
  (is "?run = Inr ?d \<and> ?dist \<and> ?num")
proof -
  have h: "?run = Inr ?d"
    by (simp add: to_graphology_json_def base_key_def suffixed_def unique_key.simps
        get_def Let_def)
  from keyed_edges_numbered_in_order[OF h] have "?dist" by simp
  moreover from keyed_edges_numbered_in_order[OF h] have "?num"
    by (simp add: numbered_def edge_base_def base_key_def suffixed_def)
  ultimately show ?thesis using h by blast
qed

subsection \<open>The undirected-simple pipeline\<close>

lemma contains_update: "contains (AList.update k v d) k' = (k' = k \<or> contains d k')"
  by (simp add: contains_def update_conv')

lemma contains_keys: "contains d k = (k \<in> set (map fst d))"
  by (simp add: contains_def map_of_eq_None_iff)

lemma subscript_contains: "contains d k \<Longrightarrow> \<exists>v. subscript d k = Inr v"
  by (auto simp: contains_def subscript_def)

lemma subscript_Inr: "subscript d k = Inr v \<longleftrightarrow> map_of d k = Some v"
  by (auto simp: subscript_def split: option.splits)

lemma get_Some: "map_of d k = Some v \<Longrightarrow> get d k dflt = v"
  by (simp add: get_def)

text \<open>The test of the node loop: both coordinate tags are present.\<close>

definition has_coordinates :: "attrs \<Rightarrow> bool" where
  "has_coordinates data = (contains data ''y'' \<and> contains data ''x'')"

lemma extract_nodes_distinct:
  "extract_nodes parse nodes N = Inr nodes' \<Longrightarrow> distinct (map fst nodes) \<Longrightarrow>
   distinct (map fst nodes')"
proof (induction N arbitrary: nodes)
  case Nil
  then show ?case by simp
next
  case (Cons a N)
  obtain n data where a: "a = (n, data)" by (cases a)
  show ?case
  proof (cases "contains data ''y'' \<and> contains data ''x''")
    case True
    with Cons.prems(1) a obtain nd where
      "extract_nodes parse (AList.update (str n) nd nodes) N = Inr nodes'"
      by (auto split: sum.splits)
    then show ?thesis using Cons.IH Cons.prems(2) by (simp add: distinct_update)
  next
    case False
    with Cons a show ?thesis by auto
  qed
qed

lemma extract_nodes_keys:
  "extract_nodes parse nodes N = Inr nodes' \<Longrightarrow>
   contains nodes' k \<longleftrightarrow>
     contains nodes k \<or> (\<exists>n data. (n, data) \<in> set N \<and> has_coordinates data \<and> k = str n)"
proof (induction N arbitrary: nodes)
  case Nil
  then show ?case by simp
next
  case (Cons a N)
  obtain n data where a: "a = (n, data)" by (cases a)
  show ?case
  proof (cases "contains data ''y'' \<and> contains data ''x''")
    case True
    with Cons.prems(1) a obtain nd where
      "extract_nodes parse (AList.update (str n) nd nodes) N = Inr nodes'"
      by (auto split: sum.splits)
    from Cons.IH[OF this] show ?thesis using True a
      by (auto simp: contains_update has_coordinates_def)
  next
    case False
    with Cons.prems a have "extract_nodes parse nodes N = Inr nodes'" by auto
    from Cons.IH[OF this] show ?thesis using False a
      by (auto simp: has_coordinates_def)
  qed
qed

text \<open>The test of the edge loop: both endpoints are keys of the node mapping.\<close>

definition kept :: "node dict \<Rightarrow> raw_edge \<Rightarrow> bool" where
  "kept nodes e = (case e of (u, v, data) \<Rightarrow> contains nodes (str u) \<and> contains nodes (str v))"

text \<open>How an exported edge relates to the raw edge it was made from.\<close>

definition edge_of :: "(string \<rightharpoonup> pyfloat) \<Rightarrow> node dict \<Rightarrow> raw_edge \<Rightarrow> edge \<Rightarrow> bool" where
  "edge_of parse nodes r e =
     (case r of (u, v, data) \<Rightarrow>
        e_id e = edge_id u v \<and> e_from e = str u \<and> e_to e = str v
        \<and> edge_properties parse data = Inr (e_properties e)
        \<and> map Some (e_coordinates e) =
            [map_option (\<lambda>n. \<lparr> c_lat = n_lat n, c_lng = n_lng n \<rparr>) (map_of nodes (str u)),
             map_option (\<lambda>n. \<lparr> c_lat = n_lat n, c_lng = n_lng n \<rparr>) (map_of nodes (str v))])"

lemma extract_edges_rel:
  "extract_edges parse nodes E = Inr es \<Longrightarrow>
   list_all2 (edge_of parse nodes) (filter (kept nodes) E) es"
proof (induction E arbitrary: es)
  case Nil
  then show ?case by simp
next
  case (Cons a E)
  obtain u v data where a: "a = (u, v, data)" by (cases a) auto
  show ?case
  proof (cases "contains nodes (str u) \<and> contains nodes (str v)")
    case True
    with Cons.prems a obtain nu nv props es' where
      nu: "subscript nodes (str u) = Inr nu" and nv: "subscript nodes (str v) = Inr nv" and
      props: "edge_properties parse data = Inr props" and
      rest: "extract_edges parse nodes E = Inr es'" and
      es: "es = \<lparr> e_id = edge_id u v, e_from = str u, e_to = str v,
                 e_coordinates = [\<lparr> c_lat = n_lat nu, c_lng = n_lng nu \<rparr>,
                                  \<lparr> c_lat = n_lat nv, c_lng = n_lng nv \<rparr>],
                 e_properties = props \<rparr> # es'"
      by (auto split: sum.splits)
    from Cons.IH[OF rest] show ?thesis
      using True a es props nu nv
      by (simp add: kept_def edge_of_def subscript_Inr)
  next
    case False
    with Cons.prems a have "extract_edges parse nodes E = Inr es" by auto
    from Cons.IH[OF this] show ?thesis using False a by (auto simp: kept_def)
  qed
qed

lemma extract_edges_members:
  assumes "extract_edges parse nodes E = Inr es" and "e \<in> set es"
  shows "\<exists>r\<in>set E. kept nodes r \<and> edge_of parse nodes r e"
proof -
  let ?F = "filter (kept nodes) E"
  from extract_edges_rel[OF assms(1)] have len: "length ?F = length es"
    and nth: "\<And>i. i < length es \<Longrightarrow> edge_of parse nodes (?F ! i) (es ! i)"
    by (auto simp: list_all2_conv_all_nth)
  from assms(2) obtain i where i: "i < length es" "e = es ! i"
    by (auto simp: in_set_conv_nth)
  from i len have "?F ! i \<in> set ?F" by (intro nth_mem) simp
  then have "?F ! i \<in> set E" "kept nodes (?F ! i)" by auto
  with nth[OF i(1)] i(2) show ?thesis by blast
qed

lemma edge_properties_keys:
  "edge_properties parse data = Inr p \<Longrightarrow>
   map fst p = [''highway'', ''name'', ''length'', ''width'', ''surface'', ''lit'', ''foot'']"
  by (auto simp: edge_properties_def split: sum.splits)

lemma edge_properties_length:
  "edge_properties parse data = Inr p \<Longrightarrow>
   \<exists>len. py_float parse (get data ''length'' (PInt 0)) = Inr len
      \<and> map_of p ''length'' = Some (PFloat len)"
  by (auto simp: edge_properties_def split: sum.splits)

lemma edge_properties_type:
  "edge_properties parse data = Inr p \<Longrightarrow>
   determine_area_type p = ''path'' \<or> determine_area_type p = ''road''"
  by (auto simp: edge_properties_def determine_area_type_def get_def Let_def split: sum.splits)


lemma update_fresh: "k \<notin> fst ` set g \<Longrightarrow> AList.update k v g = g @ [(k, v)]"
  by (induction g) auto

lemma init_graph_fresh:
  "distinct ks \<Longrightarrow> set ks \<inter> fst ` set g = {} \<Longrightarrow>
   init_graph g ks = g @ map (\<lambda>k. (k, [])) ks"
proof (induction ks arbitrary: g)
  case Nil
  then show ?case by simp
next
  case (Cons k ks)
  then have fresh: "k \<notin> fst ` set g" by auto
  have "init_graph (g @ [(k, [])]) ks = (g @ [(k, [])]) @ map (\<lambda>k. (k, [])) ks"
    using Cons.prems by (intro Cons.IH) auto
  then show ?case by (simp add: update_fresh[OF fresh])
qed

text \<open>
  The length of an exported edge, \<^verbatim>\<open>edge['properties']['length']\<close>, and the adjacency
  entries that an edge contributes to the list of node \<open>k\<close>, in the order they are appended.
\<close>

definition edge_length :: "edge \<Rightarrow> pyval" where
  "edge_length e = get (e_properties e) ''length'' PNone"

definition entries_of :: "string \<Rightarrow> edge \<Rightarrow> adjacency_entry list" where
  "entries_of k e =
     (if e_from e = k
      then [\<lparr> a_to = e_to e, a_distance = edge_length e, a_edge_id = e_id e \<rparr>] else [])
     @ (if e_to e = k
        then [\<lparr> a_to = e_from e, a_distance = edge_length e, a_edge_id = e_id e \<rparr>] else [])"

text \<open>The number of adjacency entries of a graph, over all its lists.\<close>

definition total_entries :: "adjacency_entry list dict \<Rightarrow> nat" where
  "total_entries g = sum_list (map (\<lambda>kl. length (snd kl)) g)"

lemma total_update:
  "map_of g k = Some l \<Longrightarrow> total_entries (AList.update k (l @ [a]) g) = Suc (total_entries g)"
  by (induction g) (auto simp: total_entries_def)

lemma keys_update:
  "map_of g k = Some l \<Longrightarrow> map fst (AList.update k v g) = map fst g"
  by (induction g) auto

lemma append_entry_Inr:
  "append_entry g k a = Inr g' \<Longrightarrow>
   \<exists>l. map_of g k = Some l \<and> g' = AList.update k (l @ [a]) g"
  by (auto simp: append_entry_def subscript_def split: option.splits)

lemma append_entry_props:
  assumes "append_entry g k a = Inr g'"
  shows "map fst g' = map fst g"
    and "total_entries g' = Suc (total_entries g)"
    and "map_of g' k' =
      (if k' = k then map_option (\<lambda>l. l @ [a]) (map_of g k) else map_of g k')"
proof -
  from append_entry_Inr[OF assms] obtain l where
    l: "map_of g k = Some l" and g': "g' = AList.update k (l @ [a]) g" by blast
  show "map fst g' = map fst g" using l g' by (simp add: keys_update)
  show "total_entries g' = Suc (total_entries g)" using l g' by (simp add: total_update)
  show "map_of g' k' =
      (if k' = k then map_option (\<lambda>l. l @ [a]) (map_of g k) else map_of g k')"
    using l g' by (simp add: update_conv')
qed

lemma build_graph_char:
  "build_graph g es = Inr g' \<Longrightarrow>
   map fst g' = map fst g
   \<and> total_entries g' = total_entries g + 2 * length es
   \<and> (\<forall>k. map_of g' k = map_option (\<lambda>l. l @ concat (map (entries_of k) es)) (map_of g k))"
proof (induction es arbitrary: g)
  case Nil
  then show ?case by (simp add: option.map_ident)
next
  case (Cons e es)
  from Cons.prems obtain d g1 g2 where
    d: "subscript (e_properties e) ''length'' = Inr d" and
    g1: "append_entry g (e_from e) \<lparr> a_to = e_to e, a_distance = d, a_edge_id = e_id e \<rparr> = Inr g1" and
    g2: "append_entry g1 (e_to e) \<lparr> a_to = e_from e, a_distance = d, a_edge_id = e_id e \<rparr> = Inr g2" and
    rest: "build_graph g2 es = Inr g'"
    by (auto split: sum.splits)
  from d have len: "edge_length e = d"
    by (simp add: edge_length_def subscript_Inr get_Some)
  note p1 = append_entry_props[OF g1] and p2 = append_entry_props[OF g2]
  from Cons.IH[OF rest] have
    k': "map fst g' = map fst g2" and
    t': "total_entries g' = total_entries g2 + 2 * length es" and
    m': "\<And>k. map_of g' k = map_option (\<lambda>l. l @ concat (map (entries_of k) es)) (map_of g2 k)"
    by auto
  have keys: "map fst g' = map fst g" using k' p1(1) p2(1) by simp
  have tot: "total_entries g' = total_entries g + 2 * length (e # es)"
    using t' p1(2) p2(2) by simp
  have maps: "map_of g' k = map_option (\<lambda>l. l @ concat (map (entries_of k) (e # es))) (map_of g k)"
    for k
    unfolding m' p2(3) p1(3)
    by (cases "map_of g k") (auto simp: entries_of_def len p1(3))
  from keys tot maps show ?case by blast
qed

lemma total_init: "total_entries (map (\<lambda>k. (k, [])) ks) = 0"
  by (induction ks) (auto simp: total_entries_def)

lemma map_of_init: "map_of (map (\<lambda>k. (k, [])) ks) k = (if k \<in> set ks then Some [] else None)"
  by (induction ks) auto

lemma process_parts:
  assumes "process_network_for_javascript parse N E = Inr d"
  shows "extract_nodes parse [] N = Inr (doc_nodes d)"
    and "extract_edges parse (doc_nodes d) E = Inr (doc_edges d)"
    and "build_graph (init_graph [] (map fst (doc_nodes d))) (doc_edges d) = Inr (doc_graph d)"
    and "doc_walkable_areas d = map walkable_area_of (doc_edges d)"
    and "node_count (doc_metadata d) = length (doc_nodes d)"
    and "edge_count (doc_metadata d) = length (doc_edges d)"
  using assms
  by (auto simp: process_network_for_javascript_def split: sum.splits)

lemma process_graph:
  assumes "process_network_for_javascript parse N E = Inr d"
  shows "map fst (doc_graph d) = map fst (doc_nodes d)"
    and "total_entries (doc_graph d) = 2 * length (doc_edges d)"
    and "map_of (doc_graph d) k =
      (if contains (doc_nodes d) k then Some (concat (map (entries_of k) (doc_edges d))) else None)"
proof -
  note parts = process_parts[OF assms]
  have dist: "distinct (map fst (doc_nodes d))"
    using extract_nodes_distinct[OF parts(1)] by simp
  have init: "init_graph [] (map fst (doc_nodes d)) = map (\<lambda>k. (k, [])) (map fst (doc_nodes d))"
    using init_graph_fresh[OF dist, of "[]"] by simp
  from build_graph_char[OF parts(3)] have
    a: "map fst (doc_graph d) = map fst (init_graph [] (map fst (doc_nodes d)))" and
    b: "total_entries (doc_graph d) =
          total_entries (init_graph [] (map fst (doc_nodes d))) + 2 * length (doc_edges d)" and
    c: "map_of (doc_graph d) k = map_option (\<lambda>l. l @ concat (map (entries_of k) (doc_edges d)))
          (map_of (init_graph [] (map fst (doc_nodes d))) k)"
    by auto
  show "map fst (doc_graph d) = map fst (doc_nodes d)"
    using a by (simp add: init comp_def)
  have "total_entries (init_graph [] (map fst (doc_nodes d))) = 0"
    unfolding init by (rule total_init)
  with b show "total_entries (doc_graph d) = 2 * length (doc_edges d)" by simp
  show "map_of (doc_graph d) k =
      (if contains (doc_nodes d) k then Some (concat (map (entries_of k) (doc_edges d))) else None)"
  proof -
    have "map_of (init_graph [] (map fst (doc_nodes d))) k =
        (if k \<in> set (map fst (doc_nodes d)) then Some [] else None)"
      unfolding init by (rule map_of_init)
    with c show ?thesis by (simp add: contains_keys)
  qed
qed

lemma process_nodes_keys:
  assumes "process_network_for_javascript parse G_nodes G_edges = Inr d"
  shows "contains (doc_nodes d) (str n)
    \<longleftrightarrow> (\<exists>data. (n, data) \<in> set G_nodes \<and> has_coordinates data)"
proof -
  from extract_nodes_keys[OF process_parts(1)[OF assms], of "str n"]
  have "contains (doc_nodes d) (str n) \<longleftrightarrow>
      (\<exists>m data. (m, data) \<in> set G_nodes \<and> has_coordinates data \<and> str n = str m)"
    by (simp add: contains_def)
  then show ?thesis using str_inj by blast
qed

lemma process_edges_endpoints:
  assumes "process_network_for_javascript parse G_nodes G_edges = Inr d"
  shows "map (\<lambda>e. (e_from e, e_to e)) (doc_edges d)
    = map (\<lambda>r. (str (fst r), str (fst (snd r)))) (filter (kept (doc_nodes d)) G_edges)"
proof -
  have "list_all2 (edge_of parse (doc_nodes d)) (filter (kept (doc_nodes d)) G_edges) (doc_edges d)"
    using extract_edges_rel[OF process_parts(2)[OF assms]] .
  then show ?thesis
    by (induction rule: list_all2_induct) (auto simp: edge_of_def)
qed

text \<open>A value that \<^verbatim>\<open>float\<close> accepts.\<close>

definition castable :: "(string \<rightharpoonup> pyfloat) \<Rightarrow> pyval \<Rightarrow> bool" where
  "castable parse v = (\<not> isl (py_float parse v))"

lemma castable_Inr: "castable parse v \<Longrightarrow> \<exists>r. py_float parse v = Inr r"
  by (cases "py_float parse v") (auto simp: castable_def)

lemma extract_nodes_returns:
  assumes "\<forall>(n, data)\<in>set N. has_coordinates data \<longrightarrow>
      castable parse (get data ''y'' PNone) \<and> castable parse (get data ''x'' PNone)"
  shows "\<exists>nodes'. extract_nodes parse nodes N = Inr nodes'"
  using assms
proof (induction N arbitrary: nodes)
  case Nil
  then show ?case by simp
next
  case (Cons a N)
  obtain n data where a: "a = (n, data)" by (cases a)
  from Cons.prems have rest: "\<forall>(n, data)\<in>set N. has_coordinates data \<longrightarrow>
      castable parse (get data ''y'' PNone) \<and> castable parse (get data ''x'' PNone)" by simp
  show ?case
  proof (cases "contains data ''y'' \<and> contains data ''x''")
    case True
    then obtain y x where y: "map_of data ''y'' = Some y" and x: "map_of data ''x'' = Some x"
      by (auto simp: contains_def)
    from True Cons.prems a have "castable parse (get data ''y'' PNone)"
      "castable parse (get data ''x'' PNone)" by (auto simp: has_coordinates_def)
    with y x obtain la lo where "py_float parse y = Inr la" "py_float parse x = Inr lo"
      by (auto simp: get_def dest!: castable_Inr)
    with True y x a Cons.IH[OF rest] show ?thesis by (simp add: subscript_def)
  next
    case False
    with a Cons.IH[OF rest] show ?thesis by auto
  qed
qed

lemma extract_edges_returns:
  assumes "\<forall>(u, v, data)\<in>set E. contains nodes (str u) \<and> contains nodes (str v) \<longrightarrow>
      castable parse (get data ''length'' (PInt 0))"
  shows "\<exists>es. extract_edges parse nodes E = Inr es"
  using assms
proof (induction E)
  case Nil
  then show ?case by simp
next
  case (Cons a E)
  obtain u v data where a: "a = (u, v, data)" by (cases a) auto
  from Cons have rest: "\<exists>es. extract_edges parse nodes E = Inr es" by simp
  show ?case
  proof (cases "contains nodes (str u) \<and> contains nodes (str v)")
    case True
    then obtain nu nv where "map_of nodes (str u) = Some nu" "map_of nodes (str v) = Some nv"
      by (auto simp: contains_def)
    moreover from True Cons.prems a obtain len where
      "py_float parse (get data ''length'' (PInt 0)) = Inr len"
      by (auto dest!: castable_Inr)
    ultimately show ?thesis using True a rest
      by (auto simp: subscript_def edge_properties_def)
  next
    case False
    with a rest show ?thesis by auto
  qed
qed

lemma build_graph_returns:
  assumes "\<forall>e\<in>set es. contains g (e_from e) \<and> contains g (e_to e)
      \<and> contains (e_properties e) ''length''"
  shows "\<exists>g'. build_graph g es = Inr g'"
  using assms
proof (induction es arbitrary: g)
  case Nil
  then show ?case by simp
next
  case (Cons e es)
  from Cons.prems obtain l d where l: "map_of g (e_from e) = Some l"
    and d: "map_of (e_properties e) ''length'' = Some d"
    by (auto simp: contains_def)
  let ?a1 = "\<lparr> a_to = e_to e, a_distance = d, a_edge_id = e_id e \<rparr>"
  let ?a2 = "\<lparr> a_to = e_from e, a_distance = d, a_edge_id = e_id e \<rparr>"
  let ?g1 = "AList.update (e_from e) (l @ [?a1]) g"
  have g1: "append_entry g (e_from e) ?a1 = Inr ?g1"
    using l by (simp add: append_entry_def subscript_def)
  from Cons.prems have "contains ?g1 (e_to e)" by (simp add: contains_update)
  then obtain l2 where l2: "map_of ?g1 (e_to e) = Some l2" by (auto simp: contains_def)
  let ?g2 = "AList.update (e_to e) (l2 @ [?a2]) ?g1"
  have g2: "append_entry ?g1 (e_to e) ?a2 = Inr ?g2"
    using l2 by (simp add: append_entry_def subscript_def)
  have "\<forall>e\<in>set es. contains ?g2 (e_from e) \<and> contains ?g2 (e_to e)
      \<and> contains (e_properties e) ''length''"
    using Cons.prems by (simp add: contains_update)
  from Cons.IH[OF this] obtain g' where "build_graph ?g2 es = Inr g'" by blast
  then show ?case using l d g1 g2 by (simp add: subscript_def)
qed

lemma process_returns:
  assumes "\<forall>(n, data)\<in>set G_nodes. has_coordinates data \<longrightarrow>
      castable parse (get data ''y'' PNone) \<and> castable parse (get data ''x'' PNone)"
    and "\<forall>(u, v, data)\<in>set G_edges.
      (\<exists>a. (u, a) \<in> set G_nodes \<and> has_coordinates a) \<and>
      (\<exists>b. (v, b) \<in> set G_nodes \<and> has_coordinates b) \<longrightarrow>
      castable parse (get data ''length'' (PInt 0))"
  shows "\<exists>d. process_network_for_javascript parse G_nodes G_edges = Inr d"
proof -
  from extract_nodes_returns[OF assms(1)] obtain nodes where
    n: "extract_nodes parse [] G_nodes = Inr nodes" by blast
  have keys: "contains nodes (str m) \<longleftrightarrow> (\<exists>data. (m, data) \<in> set G_nodes \<and> has_coordinates data)"
    for m
  proof -
    from extract_nodes_keys[OF n, of "str m"]
    have "contains nodes (str m) \<longleftrightarrow>
      (\<exists>m' data. (m', data) \<in> set G_nodes \<and> has_coordinates data \<and> str m = str m')"
      by (simp add: contains_def)
    then show ?thesis using str_inj by blast
  qed
  have "\<forall>(u, v, data)\<in>set G_edges. contains nodes (str u) \<and> contains nodes (str v) \<longrightarrow>
      castable parse (get data ''length'' (PInt 0))"
    using assms(2) by (auto simp: keys)
  from extract_edges_returns[OF this] obtain es where
    e: "extract_edges parse nodes G_edges = Inr es" by blast
  have dist: "distinct (map fst nodes)" using extract_nodes_distinct[OF n] by simp
  have init: "init_graph [] (map fst nodes) = map (\<lambda>k. (k, [])) (map fst nodes)"
    using init_graph_fresh[OF dist, of "[]"] by simp
  have ci: "contains (init_graph [] (map fst nodes)) k = contains nodes k" for k
    unfolding init by (simp add: contains_keys comp_def)
  have "\<forall>x\<in>set es. contains (init_graph [] (map fst nodes)) (e_from x)
      \<and> contains (init_graph [] (map fst nodes)) (e_to x)
      \<and> contains (e_properties x) ''length''"
  proof
    fix x assume "x \<in> set es"
    from extract_edges_members[OF e this] obtain r where
      r: "kept nodes r" "edge_of parse nodes r x" by blast
    obtain u v data where rr: "r = (u, v, data)" by (cases r) auto
    from r rr have "contains nodes (e_from x)" "contains nodes (e_to x)"
      and p: "edge_properties parse data = Inr (e_properties x)"
      by (auto simp: kept_def edge_of_def)
    moreover from edge_properties_length[OF p] have "contains (e_properties x) ''length''"
      by (auto simp: contains_def)
    ultimately show "contains (init_graph [] (map fst nodes)) (e_from x)
      \<and> contains (init_graph [] (map fst nodes)) (e_to x)
      \<and> contains (e_properties x) ''length''"
      by (simp add: ci)
  qed
  from build_graph_returns[OF this] obtain g where
    "build_graph (init_graph [] (map fst nodes)) es = Inr g" by blast
  with n e show ?thesis by (simp add: process_network_for_javascript_def)
qed

lemma endpoints_of_returned_document:
  assumes "process_network_for_javascript parse G_nodes G_edges = Inr d"
  shows "(\<forall>e\<in>set (doc_edges d).
            contains (doc_nodes d) (e_from e) \<and> contains (doc_nodes d) (e_to e))
    \<and> map (\<lambda>e. (e_from e, e_to e)) (doc_edges d)
        = map (\<lambda>r. (str (fst r), str (fst (snd r)))) (filter (kept (doc_nodes d)) G_edges)
    \<and> (\<forall>n. contains (doc_nodes d) (str n)
            \<longleftrightarrow> (\<exists>data. (n, data) \<in> set G_nodes \<and> has_coordinates data))
    \<and> (\<forall>n. (\<forall>data. (n, data) \<in> set G_nodes \<longrightarrow> \<not> has_coordinates data) \<longrightarrow>
            \<not> contains (doc_nodes d) (str n)
            \<and> (\<forall>e\<in>set (doc_edges d). e_from e \<noteq> str n \<and> e_to e \<noteq> str n))"
proof -
  note parts = process_parts[OF assms]
  have a: "contains (doc_nodes d) (e_from e) \<and> contains (doc_nodes d) (e_to e)"
    if "e \<in> set (doc_edges d)" for e
    using extract_edges_members[OF parts(2) that] by (auto simp: edge_of_def kept_def)
  note b = process_edges_endpoints[OF assms]
  note c = process_nodes_keys[OF assms]
  have e: "\<not> contains (doc_nodes d) (str n)
      \<and> (\<forall>e\<in>set (doc_edges d). e_from e \<noteq> str n \<and> e_to e \<noteq> str n)"
    if "\<forall>data. (n, data) \<in> set G_nodes \<longrightarrow> \<not> has_coordinates data" for n
  proof -
    from that c[of n] have "\<not> contains (doc_nodes d) (str n)" by blast
    with a show ?thesis by metis
  qed
  from a b c e show ?thesis by blast
qed

subsection \<open>The area classifier\<close>

lemma eq_str_get:
  "eq_str (get bag k (PStr d)) w = (tag_equals bag k w \<or> (map_of bag k = None \<and> d = w))"
  by (cases "map_of bag k"; cases "the (map_of bag k)") (auto simp: get_def tag_equals_def)

lemma eq_str_get_none: "eq_str (get bag k PNone) w = tag_equals bag k w"
  by (cases "map_of bag k"; cases "the (map_of bag k)") (auto simp: get_def tag_equals_def)

lemma truthy_get_none: "truthy (get bag k PNone) = truthy_tag bag k"
  by (cases "map_of bag k") (auto simp: get_def truthy_tag_def)

text \<open>
  C2. The classifier computes, for every properties bag, the label of the first rule of
  the specification's ordered table that matches, and \<open>path\<close> when none does; its result is
  one of the four labels; and on the five bags the specification lists it answers
  sidewalk, path, road, plaza and path.
\<close>

theorem determine_area_type_first_match:
  "determine_area_type bag = classify_by_rules bag
   \<and> determine_area_type bag \<in> {''path'', ''road'', ''sidewalk'', ''plaza''}
   \<and> determine_area_type [(''highway'', PStr ''residential''), (''sidewalk'', PStr ''yes'')]
       = ''sidewalk''
   \<and> determine_area_type [(''highway'', PStr ''footway'')] = ''path''
   \<and> determine_area_type [(''highway'', PStr ''living_street'')] = ''road''
   \<and> determine_area_type [(''leisure'', PStr ''park'')] = ''plaza''
   \<and> determine_area_type [] = ''path''"
proof -
  have a: "determine_area_type bag = classify_by_rules bag"
    unfolding determine_area_type_def classify_by_rules_def classifier_rules_def Let_def
    by (simp add: eq_str_get eq_str_get_none truthy_get_none)
  have b: "determine_area_type bag \<in> {''path'', ''road'', ''sidewalk'', ''plaza''}"
    unfolding determine_area_type_def Let_def by simp
  have c: "determine_area_type [(''highway'', PStr ''residential''), (''sidewalk'', PStr ''yes'')]
      = ''sidewalk''"
    by (simp add: determine_area_type_def get_def)
  have d: "determine_area_type [(''highway'', PStr ''footway'')] = ''path''"
    by (simp add: determine_area_type_def get_def)
  have e: "determine_area_type [(''highway'', PStr ''living_street'')] = ''road''"
    by (simp add: determine_area_type_def get_def)
  have f: "determine_area_type [(''leisure'', PStr ''park'')] = ''plaza''"
    by (simp add: determine_area_type_def get_def)
  have g: "determine_area_type [] = ''path''"
    by (simp add: determine_area_type_def get_def)
  from a b c d e f g show ?thesis by blast
qed

subsection \<open>Endpoint closure\<close>

text \<open>
  C5. Endpoint closure in undirected-simple mode. A run returns a document whenever
  \<^verbatim>\<open>float\<close> accepts the coordinates of the nodes that have both coordinate tags and
  the length of the raw edges whose two endpoints are such nodes: a raw edge with any other
  endpoint raises nothing, whatever its tags. In every returned document both endpoints of
  every edge are keys of the node mapping; the edge list is, in order, the raw edges both of
  whose endpoints are keys of the node mapping; a node id is a key of the node mapping
  exactly when a raw node of that id has both coordinate tags; and a raw node without them
  is no key of the node mapping and no endpoint of an exported edge.
\<close>

theorem edge_endpoints_in_node_mapping:
  "((\<forall>(n, data)\<in>set G_nodes. has_coordinates data \<longrightarrow>
        castable parse (get data ''y'' PNone) \<and> castable parse (get data ''x'' PNone))
     \<and> (\<forall>(u, v, data)\<in>set G_edges.
          (\<exists>a. (u, a) \<in> set G_nodes \<and> has_coordinates a) \<and>
          (\<exists>b. (v, b) \<in> set G_nodes \<and> has_coordinates b) \<longrightarrow>
          castable parse (get data ''length'' (PInt 0)))
     \<longrightarrow> (\<exists>d. process_network_for_javascript parse G_nodes G_edges = Inr d))
   \<and> (\<forall>d. process_network_for_javascript parse G_nodes G_edges = Inr d \<longrightarrow>
        (\<forall>e\<in>set (doc_edges d).
            contains (doc_nodes d) (e_from e) \<and> contains (doc_nodes d) (e_to e))
        \<and> map (\<lambda>e. (e_from e, e_to e)) (doc_edges d)
            = map (\<lambda>r. (str (fst r), str (fst (snd r)))) (filter (kept (doc_nodes d)) G_edges)
        \<and> (\<forall>n. contains (doc_nodes d) (str n)
                \<longleftrightarrow> (\<exists>data. (n, data) \<in> set G_nodes \<and> has_coordinates data))
        \<and> (\<forall>n. (\<forall>data. (n, data) \<in> set G_nodes \<longrightarrow> \<not> has_coordinates data) \<longrightarrow>
                \<not> contains (doc_nodes d) (str n)
                \<and> (\<forall>e\<in>set (doc_edges d). e_from e \<noteq> str n \<and> e_to e \<noteq> str n)))"
proof (rule conjI)
  show "(\<forall>(n, data)\<in>set G_nodes. has_coordinates data \<longrightarrow>
        castable parse (get data ''y'' PNone) \<and> castable parse (get data ''x'' PNone))
     \<and> (\<forall>(u, v, data)\<in>set G_edges.
          (\<exists>a. (u, a) \<in> set G_nodes \<and> has_coordinates a) \<and>
          (\<exists>b. (v, b) \<in> set G_nodes \<and> has_coordinates b) \<longrightarrow>
          castable parse (get data ''length'' (PInt 0)))
     \<longrightarrow> (\<exists>d. process_network_for_javascript parse G_nodes G_edges = Inr d)"
    using process_returns[of G_nodes parse G_edges] by blast
next
  show "\<forall>d. process_network_for_javascript parse G_nodes G_edges = Inr d \<longrightarrow>
        (\<forall>e\<in>set (doc_edges d).
            contains (doc_nodes d) (e_from e) \<and> contains (doc_nodes d) (e_to e))
        \<and> map (\<lambda>e. (e_from e, e_to e)) (doc_edges d)
            = map (\<lambda>r. (str (fst r), str (fst (snd r)))) (filter (kept (doc_nodes d)) G_edges)
        \<and> (\<forall>n. contains (doc_nodes d) (str n)
                \<longleftrightarrow> (\<exists>data. (n, data) \<in> set G_nodes \<and> has_coordinates data))
        \<and> (\<forall>n. (\<forall>data. (n, data) \<in> set G_nodes \<longrightarrow> \<not> has_coordinates data) \<longrightarrow>
                \<not> contains (doc_nodes d) (str n)
                \<and> (\<forall>e\<in>set (doc_edges d). e_from e \<noteq> str n \<and> e_to e \<noteq> str n))"
  proof (rule allI, rule impI)
    fix d assume h: "process_network_for_javascript parse G_nodes G_edges = Inr d"
    show "(\<forall>e\<in>set (doc_edges d).
            contains (doc_nodes d) (e_from e) \<and> contains (doc_nodes d) (e_to e))
        \<and> map (\<lambda>e. (e_from e, e_to e)) (doc_edges d)
            = map (\<lambda>r. (str (fst r), str (fst (snd r)))) (filter (kept (doc_nodes d)) G_edges)
        \<and> (\<forall>n. contains (doc_nodes d) (str n)
                \<longleftrightarrow> (\<exists>data. (n, data) \<in> set G_nodes \<and> has_coordinates data))
        \<and> (\<forall>n. (\<forall>data. (n, data) \<in> set G_nodes \<longrightarrow> \<not> has_coordinates data) \<longrightarrow>
                \<not> contains (doc_nodes d) (str n)
                \<and> (\<forall>e\<in>set (doc_edges d). e_from e \<noteq> str n \<and> e_to e \<noteq> str n))"
      using endpoints_of_returned_document[OF h] .
  qed
qed

theorem edge_endpoints_in_node_mapping_witness:
  "(case process_network_for_javascript Map.empty
      [(1, [(''y'', PFloat (Finite 1)), (''x'', PFloat (Finite 2))]), (2, [(''y'', PFloat (Finite 3)), (''x'', PFloat (Finite 4))]),
       (3, [(''name'', PStr ''no coordinates'')])]
      [(1, 2, []), (1, 3, [(''length'', PNone)]), (3, 2, [])]
    of Inl e \<Rightarrow> ([], [])
     | Inr d \<Rightarrow> (map fst (doc_nodes d), map (\<lambda>e. (e_from e, e_to e)) (doc_edges d)))
   = ([''1'', ''2''], [(''1'', ''2'')])"
  (is "(case ?run of Inl e \<Rightarrow> ([], []) | Inr d \<Rightarrow> ?f d) = ?r")
proof -
  have ev: "(case ?run of Inl e \<Rightarrow> ([], []) | Inr d \<Rightarrow> ?f d) = ?r"
    by (simp add: process_network_for_javascript_def contains_def subscript_def get_def
        edge_properties_def edge_id_def append_entry_def)
  from edge_endpoints_in_node_mapping[of
      "[(1, [(''y'', PFloat (Finite 1)), (''x'', PFloat (Finite 2))]), (2, [(''y'', PFloat (Finite 3)), (''x'', PFloat (Finite 4))]),
        (3, [(''name'', PStr ''no coordinates'')])]"
      Map.empty "[(1, 2, []), (1, 3, [(''length'', PNone)]), (3, 2, [])]"] ev
  show ?thesis by simp
qed

subsection \<open>Adjacency\<close>

text \<open>
  C4. Adjacency symmetry in undirected-simple mode. The adjacency mapping has exactly the
  keys of the node mapping, in the same order; the list of node \<open>k\<close> is, in edge order, one
  entry towards \<open>v\<close> for every edge \<open>(k, v)\<close> and one towards \<open>u\<close> for every edge
  \<open>(u, k)\<close>; so every edge \<open>(u, v)\<close> has an entry with \<open>to = v\<close> in the list of \<open>u\<close> and
  one with \<open>to = u\<close> in the list of \<open>v\<close>, both with the edge's length as distance and the
  edge's id; the lists hold two entries per edge in all; and a node that no edge touches has
  the empty list.
\<close>

theorem adjacency_symmetric:
  assumes "process_network_for_javascript parse G_nodes G_edges = Inr d"
  shows "map fst (doc_graph d) = map fst (doc_nodes d)
    \<and> (\<forall>k\<in>set (map fst (doc_nodes d)).
          map_of (doc_graph d) k = Some (concat (map (entries_of k) (doc_edges d))))
    \<and> (\<forall>e\<in>set (doc_edges d).
          \<lparr> a_to = e_to e, a_distance = edge_length e, a_edge_id = e_id e \<rparr>
            \<in> set (get (doc_graph d) (e_from e) [])
          \<and> \<lparr> a_to = e_from e, a_distance = edge_length e, a_edge_id = e_id e \<rparr>
            \<in> set (get (doc_graph d) (e_to e) []))
    \<and> total_entries (doc_graph d) = 2 * length (doc_edges d)
    \<and> (\<forall>k\<in>set (map fst (doc_nodes d)).
          (\<forall>e\<in>set (doc_edges d). e_from e \<noteq> k \<and> e_to e \<noteq> k) \<longrightarrow>
          map_of (doc_graph d) k = Some [])"
proof -
  note parts = process_parts[OF assms]
  note g = process_graph[OF assms]
  have m: "map_of (doc_graph d) k = Some (concat (map (entries_of k) (doc_edges d)))"
    if "k \<in> set (map fst (doc_nodes d))" for k
    using g(3)[of k] that by (simp add: contains_keys)
  have ends: "contains (doc_nodes d) (e_from e) \<and> contains (doc_nodes d) (e_to e)"
    if "e \<in> set (doc_edges d)" for e
    using extract_edges_members[OF parts(2) that] by (auto simp: edge_of_def kept_def)
  have mem: "\<lparr> a_to = e_to e, a_distance = edge_length e, a_edge_id = e_id e \<rparr>
            \<in> set (get (doc_graph d) (e_from e) [])
          \<and> \<lparr> a_to = e_from e, a_distance = edge_length e, a_edge_id = e_id e \<rparr>
            \<in> set (get (doc_graph d) (e_to e) [])"
    if e: "e \<in> set (doc_edges d)" for e
  proof -
    from ends[OF e] have
      f: "get (doc_graph d) (e_from e) [] = concat (map (entries_of (e_from e)) (doc_edges d))" and
      t: "get (doc_graph d) (e_to e) [] = concat (map (entries_of (e_to e)) (doc_edges d))"
      by (simp_all add: g(3) get_def)
    have "\<lparr> a_to = e_to e, a_distance = edge_length e, a_edge_id = e_id e \<rparr>
        \<in> set (entries_of (e_from e) e)"
      by (simp add: entries_of_def)
    moreover have "\<lparr> a_to = e_from e, a_distance = edge_length e, a_edge_id = e_id e \<rparr>
        \<in> set (entries_of (e_to e) e)"
      by (simp add: entries_of_def)
    ultimately show ?thesis unfolding f t using e by auto
  qed
  have iso: "map_of (doc_graph d) k = Some []"
    if "k \<in> set (map fst (doc_nodes d))"
      and "\<forall>e\<in>set (doc_edges d). e_from e \<noteq> k \<and> e_to e \<noteq> k" for k
  proof -
    from that(2) have "concat (map (entries_of k) (doc_edges d)) = []"
      by (auto simp: entries_of_def)
    with m[OF that(1)] show ?thesis by simp
  qed
  from g(1) m mem g(2) iso show ?thesis by blast
qed

theorem adjacency_symmetric_witness:
  "(case process_network_for_javascript Map.empty
      [(1, [(''y'', PFloat (Finite 1)), (''x'', PFloat (Finite 2))]), (2, [(''y'', PFloat (Finite 3)), (''x'', PFloat (Finite 4))]),
       (3, [(''y'', PFloat (Finite 5)), (''x'', PFloat (Finite 6))])]
      [(1, 2, [(''length'', PFloat (Finite 7))])]
    of Inl e \<Rightarrow> [] | Inr d \<Rightarrow> doc_graph d)
   = [(''1'', [\<lparr> a_to = ''2'', a_distance = PFloat (Finite 7), a_edge_id = ''edge_1_2'' \<rparr>]),
      (''2'', [\<lparr> a_to = ''1'', a_distance = PFloat (Finite 7), a_edge_id = ''edge_1_2'' \<rparr>]),
      (''3'', [])]"
  (is "(case ?run of Inl e \<Rightarrow> [] | Inr d \<Rightarrow> ?f d) = ?r")
proof -
  have ev: "(case ?run of Inl e \<Rightarrow> [] | Inr d \<Rightarrow> ?f d) = ?r"
    by (simp add: process_network_for_javascript_def contains_def subscript_def get_def
        edge_properties_def edge_id_def append_entry_def)
  then obtain d where h: "?run = Inr d" by (cases ?run) auto
  from adjacency_symmetric[OF h] ev show ?thesis by simp
qed

subsection \<open>Reachable labels\<close>

text \<open>
  C10. In the undirected-simple pipeline every walkable area's type is \<open>path\<close> or
  \<open>road\<close>: the properties bag handed to the classifier has exactly the keys highway,
  name, length, width, surface, lit and foot, so it never holds a \<open>sidewalk\<close> or a
  \<open>leisure\<close> key and the sidewalk and plaza rules cannot fire.
\<close>

theorem walkable_area_types_path_or_road:
  assumes "process_network_for_javascript parse G_nodes G_edges = Inr d"
  shows "(\<forall>w\<in>set (doc_walkable_areas d). w_type w = ''path'' \<or> w_type w = ''road'')
    \<and> (\<forall>e\<in>set (doc_edges d). map fst (e_properties e) =
          [''highway'', ''name'', ''length'', ''width'', ''surface'', ''lit'', ''foot''])"
proof -
  note parts = process_parts[OF assms]
  have props: "\<exists>data. edge_properties parse data = Inr (e_properties e)"
    if "e \<in> set (doc_edges d)" for e
    using extract_edges_members[OF parts(2) that] by (auto simp: edge_of_def)
  have "w_type w = ''path'' \<or> w_type w = ''road''" if "w \<in> set (doc_walkable_areas d)" for w
  proof -
    from that parts(4) obtain e where "e \<in> set (doc_edges d)" "w = walkable_area_of e" by auto
    with props[of e] edge_properties_type show ?thesis
      by (auto simp: walkable_area_of_def)
  qed
  moreover have "map fst (e_properties e) =
      [''highway'', ''name'', ''length'', ''width'', ''surface'', ''lit'', ''foot'']"
    if "e \<in> set (doc_edges d)" for e
    using props[OF that] edge_properties_keys by blast
  ultimately show ?thesis by blast
qed

theorem walkable_area_types_path_or_road_witness:
  "(case process_network_for_javascript Map.empty
      [(1, [(''y'', PFloat (Finite 1)), (''x'', PFloat (Finite 2))]), (2, [(''y'', PFloat (Finite 3)), (''x'', PFloat (Finite 4))])]
      [(1, 2, [(''highway'', PStr ''living_street''), (''sidewalk'', PStr ''yes''),
               (''leisure'', PStr ''park'')]),
       (1, 2, [(''highway'', PStr ''residential''), (''sidewalk'', PStr ''yes'')]),
       (2, 1, [(''leisure'', PStr ''park'')])]
    of Inl e \<Rightarrow> [] | Inr d \<Rightarrow> map w_type (doc_walkable_areas d))
   = [''road'', ''path'', ''path'']"
  (is "(case ?run of Inl e \<Rightarrow> [] | Inr d \<Rightarrow> ?f d) = ?r")
proof -
  have ev: "(case ?run of Inl e \<Rightarrow> [] | Inr d \<Rightarrow> ?f d) = ?r"
    by (simp add: process_network_for_javascript_def contains_def subscript_def get_def
        edge_properties_def edge_id_def walkable_area_of_def determine_area_type_def
        append_entry_def)
  then obtain d where h: "?run = Inr d" by (cases ?run) auto
  from walkable_area_types_path_or_road[OF h] ev show ?thesis by simp
qed

subsection \<open>The empty graph\<close>

text \<open>
  C8. On the empty raw graph (no node, no edge) the undirected-simple pipeline raises
  nothing and returns a document whose counts are zero and whose node mapping, edge list,
  walkable-area list and adjacency mapping are empty.
\<close>

theorem empty_graph_empty_document:
  "process_network_for_javascript parse [] [] =
     Inr \<lparr> doc_metadata =
             \<lparr> area = ''Kista, Stockholm'', md_bounds = kista_bounds,
               node_count = 0, edge_count = 0, generated_at = ''2024-01-01T00:00:00Z'' \<rparr>,
           doc_nodes = [], doc_edges = [], doc_walkable_areas = [], doc_graph = [] \<rparr>"
  by (simp add: process_network_for_javascript_def)

subsection \<open>Edge identifiers of the undirected-simple mode\<close>

text \<open>
  C1. Edge identifiers are unique within one export, in both modes. The keyed-multigraph
  mode keeps this (the keys of an export are pairwise distinct, see C3). The
  undirected-simple mode breaks it: the identifier is \<^verbatim>\<open>edge_{u}_{v}\<close>, the undirected
  multigraph yields one (u, v, data) triple for every parallel edge of a node pair, and so
  two parallel edges between nodes 1 and 2 are both exported as \<open>edge_1_2\<close>.
\<close>

theorem parallel_edges_share_identifier:
  "(case process_network_for_javascript Map.empty
      [(1, [(''y'', PFloat (Finite 1)), (''x'', PFloat (Finite 2))]), (2, [(''y'', PFloat (Finite 3)), (''x'', PFloat (Finite 4))])]
      [(1, 2, [(''length'', PFloat (Finite 10))]), (1, 2, [(''length'', PFloat (Finite 25))])]
    of Inl e \<Rightarrow> [] | Inr d \<Rightarrow> map e_id (doc_edges d))
   = [''edge_1_2'', ''edge_1_2'']"
  by (simp add: process_network_for_javascript_def contains_def subscript_def get_def
      edge_properties_def edge_id_def append_entry_def)

subsection \<open>Attribute projection\<close>

text \<open>
  What the projection of a raw node or a raw edge is, in each mode: the cast coordinates
  and length, and every other field the raw tag or its default.
\<close>

definition graphology_node_projects ::
  "(string \<rightharpoonup> pyfloat) \<Rightarrow> raw_node \<Rightarrow> graphology_node \<Rightarrow> bool" where
  "graphology_node_projects parse r nd =
     (case r of (n, data) \<Rightarrow>
        gn_key nd = str n
        \<and> map_option (py_float parse) (map_of data ''y'') = Some (Inr (gn_lat nd))
        \<and> map_option (py_float parse) (map_of data ''x'') = Some (Inr (gn_lng nd))
        \<and> gn_highway nd = get data ''highway'' (PStr ''intersection'')
        \<and> gn_name nd = get data ''name'' (PStr []))"

definition graphology_edge_projects ::
  "(string \<rightharpoonup> pyfloat) \<Rightarrow> raw_keyed_edge \<Rightarrow> graphology_edge \<Rightarrow> bool" where
  "graphology_edge_projects parse r e =
     (case r of (u, v, k, data) \<Rightarrow>
        ge_source e = str u \<and> ge_target e = str v
        \<and> ge_highway e = get data ''highway'' (PStr ''path'')
        \<and> py_float parse (get data ''length'' (PInt 0)) = Inr (ge_length e)
        \<and> (\<not> contains data ''length'' \<longrightarrow> ge_length e = Finite 0)
        \<and> ge_surface e = get data ''surface'' (PStr [])
        \<and> ge_foot e = get data ''foot'' (PStr ''yes''))"

definition node_projects :: "(string \<rightharpoonup> pyfloat) \<Rightarrow> raw_node \<Rightarrow> node \<Rightarrow> bool" where
  "node_projects parse r nd =
     (case r of (n, data) \<Rightarrow>
        n_id nd = str n
        \<and> map_option (py_float parse) (map_of data ''y'') = Some (Inr (n_lat nd))
        \<and> map_option (py_float parse) (map_of data ''x'') = Some (Inr (n_lng nd))
        \<and> n_highway nd = get data ''highway'' (PStr ''intersection'')
        \<and> n_name nd = get data ''name'' (PStr [])
        \<and> n_intersection nd = get data ''intersection'' (PBool False))"

definition edge_projects :: "(string \<rightharpoonup> pyfloat) \<Rightarrow> raw_edge \<Rightarrow> edge \<Rightarrow> bool" where
  "edge_projects parse r e =
     (case r of (u, v, data) \<Rightarrow>
        e_id e = edge_id u v \<and> e_from e = str u \<and> e_to e = str v
        \<and> (\<not> contains data ''length'' \<longrightarrow> map_of (e_properties e) ''length'' = Some (PFloat (Finite 0)))
        \<and> (\<exists>len. py_float parse (get data ''length'' (PInt 0)) = Inr len
              \<and> e_properties e =
                  [(''highway'', get data ''highway'' (PStr ''path'')),
                   (''name'', get data ''name'' (PStr [])),
                   (''length'', PFloat len),
                   (''width'', get data ''width'' PNone),
                   (''surface'', get data ''surface'' PNone),
                   (''lit'', get data ''lit'' PNone),
                   (''foot'', get data ''foot'' (PStr ''yes''))]))"

lemma get_absent: "\<not> contains data k \<Longrightarrow> get data k dflt = dflt"
  by (simp add: contains_def get_def)

lemma graphology_nodes_rel:
  "graphology_nodes parse N = Inr ns \<Longrightarrow> list_all2 (graphology_node_projects parse) N ns"
proof (induction N arbitrary: ns)
  case Nil
  then show ?case by simp
next
  case (Cons a N)
  obtain n data where a: "a = (n, data)" by (cases a)
  from Cons.prems obtain nd ns' where
    nd: "graphology_node_of parse a = Inr nd" and
    rest: "graphology_nodes parse N = Inr ns'" and ns: "ns = nd # ns'"
    by (auto split: sum.splits)
  from nd a have "graphology_node_projects parse a nd"
    by (auto simp: graphology_node_of_def graphology_node_projects_def subscript_def
        split: sum.splits option.splits)
  with Cons.IH[OF rest] ns show ?case by simp
qed

lemma graphology_edges_rel:
  "graphology_edges parse S E = Inr es \<Longrightarrow> list_all2 (graphology_edge_projects parse) E es"
proof (induction E arbitrary: S es)
  case Nil
  then show ?case by simp
next
  case (Cons a E)
  obtain u v k data where a: "a = (u, v, k, data)" by (cases a) auto
  let ?ek = "unique_key (base_key u v k) S (base_key u v k) 1"
  from Cons.prems a obtain len es' where
    len: "py_float parse (get data ''length'' (PInt 0)) = Inr len" and
    rest: "graphology_edges parse (finsert ?ek S) E = Inr es'" and
    es: "es = \<lparr> ge_key = ?ek, ge_source = str u, ge_target = str v,
                ge_highway = get data ''highway'' (PStr ''path''),
                ge_length = len,
                ge_surface = get data ''surface'' (PStr []),
                ge_foot = get data ''foot'' (PStr ''yes'') \<rparr> # es'"
    by (auto simp: Let_def split: sum.splits)
  have zero: "\<not> contains data ''length'' \<longrightarrow> len = Finite 0"
    using len by (auto simp: get_absent)
  from Cons.IH[OF rest] show ?case
    using a es len zero by (simp add: graphology_edge_projects_def)
qed

lemma extract_nodes_preserve:
  "extract_nodes parse nodes N = Inr nodes' \<Longrightarrow> \<forall>m\<in>fst ` set N. str m \<noteq> k \<Longrightarrow>
   map_of nodes' k = map_of nodes k"
proof (induction N arbitrary: nodes)
  case Nil
  then show ?case by simp
next
  case (Cons a N)
  obtain n data where a: "a = (n, data)" by (cases a)
  from Cons.prems(2) a have ne: "str n \<noteq> k" and rest: "\<forall>m\<in>fst ` set N. str m \<noteq> k" by auto
  show ?case
  proof (cases "contains data ''y'' \<and> contains data ''x''")
    case True
    with Cons.prems(1) a obtain nd where
      "extract_nodes parse (AList.update (str n) nd nodes) N = Inr nodes'"
      by (auto split: sum.splits)
    from Cons.IH[OF this rest] ne show ?thesis by (simp add: update_conv')
  next
    case False
    with Cons.prems(1) a have "extract_nodes parse nodes N = Inr nodes'" by auto
    from Cons.IH[OF this rest] show ?thesis .
  qed
qed

lemma extract_nodes_values:
  "extract_nodes parse nodes N = Inr nodes' \<Longrightarrow> distinct (map fst N) \<Longrightarrow>
   (n, data) \<in> set N \<Longrightarrow> has_coordinates data \<Longrightarrow>
   \<exists>nd. map_of nodes' (str n) = Some nd \<and> node_projects parse (n, data) nd"
proof (induction N arbitrary: nodes)
  case Nil
  then show ?case by simp
next
  case (Cons a N)
  obtain m mdata where a: "a = (m, mdata)" by (cases a)
  show ?case
  proof (cases "(n, data) = a")
    case True
    with a have eq: "m = n" "mdata = data" by auto
    from Cons.prems(4) have c: "contains data ''y'' \<and> contains data ''x''"
      by (simp add: has_coordinates_def)
    with Cons.prems(1) a eq obtain y x la lo where
      y: "map_of data ''y'' = Some y" "py_float parse y = Inr la" and
      x: "map_of data ''x'' = Some x" "py_float parse x = Inr lo" and
      rest: "extract_nodes parse
        (AList.update (str n)
           \<lparr> n_id = str n, n_lat = la, n_lng = lo,
             n_highway = get data ''highway'' (PStr ''intersection''),
             n_name = get data ''name'' (PStr []),
             n_intersection = get data ''intersection'' (PBool False) \<rparr> nodes) N = Inr nodes'"
      by (auto simp: subscript_def split: sum.splits option.splits)
    from Cons.prems(2) a eq have "n \<notin> fst ` set N" by auto
    then have "\<forall>k\<in>fst ` set N. str k \<noteq> str n" using str_inj by blast
    from extract_nodes_preserve[OF rest this] y x show ?thesis
      by (simp add: update_conv' node_projects_def)
  next
    case False
    with Cons.prems(3) have mem: "(n, data) \<in> set N" by auto
    from Cons.prems(2) have dist: "distinct (map fst N)" by simp
    show ?thesis
    proof (cases "contains mdata ''y'' \<and> contains mdata ''x''")
      case True
      with Cons.prems(1) a obtain nd where
        "extract_nodes parse (AList.update (str m) nd nodes) N = Inr nodes'"
        by (auto split: sum.splits)
      from Cons.IH[OF this dist mem Cons.prems(4)] show ?thesis .
    next
      case False
      with Cons.prems(1) a have "extract_nodes parse nodes N = Inr nodes'" by auto
      from Cons.IH[OF this dist mem Cons.prems(4)] show ?thesis .
    qed
  qed
qed

lemma edge_of_projects:
  assumes "edge_of parse nodes r e"
  shows "edge_projects parse r e"
proof -
  obtain u v data where r: "r = (u, v, data)" by (cases r) auto
  from assms r have ids: "e_id e = edge_id u v" "e_from e = str u" "e_to e = str v"
    and p: "edge_properties parse data = Inr (e_properties e)"
    by (auto simp: edge_of_def)
  from p obtain len where len: "py_float parse (get data ''length'' (PInt 0)) = Inr len"
    and props: "e_properties e =
        [(''highway'', get data ''highway'' (PStr ''path'')),
         (''name'', get data ''name'' (PStr [])),
         (''length'', PFloat len),
         (''width'', get data ''width'' PNone),
         (''surface'', get data ''surface'' PNone),
         (''lit'', get data ''lit'' PNone),
         (''foot'', get data ''foot'' (PStr ''yes''))]"
    by (auto simp: edge_properties_def split: sum.splits)
  have zero: "\<not> contains data ''length'' \<longrightarrow>
      map_of (e_properties e) ''length'' = Some (PFloat (Finite 0))"
    using len props by (auto simp: get_absent)
  from ids len props zero show ?thesis
    unfolding edge_projects_def r by blast
qed

text \<open>
  C6, as amended. Every node of the keyed-multigraph export, and the node of every raw
  node with both coordinate tags in the undirected-simple export (node ids being distinct),
  has lat and lng the casts of the raw \<open>y\<close> and \<open>x\<close>, highway the raw tag or
  \<open>intersection\<close>, and name the raw tag or the empty string. Every edge of the
  keyed-multigraph export, and every exported edge of the undirected-simple one, has highway
  the raw tag or \<open>path\<close>, length the cast of the raw tag or 0.0, and foot the raw tag or
  \<open>yes\<close>; surface is the raw tag or the empty string in keyed-multigraph mode and the raw
  tag or null in undirected-simple mode, where width and lit are passed through with null
  defaults and name is the raw tag or the empty string.
\<close>

theorem attribute_projection_defaults:
  assumes "to_graphology_json parse K_nodes K_edges = Inr g"
    and "process_network_for_javascript parse G_nodes G_edges = Inr d"
    and "distinct (map fst G_nodes)"
  shows "list_all2 (graphology_node_projects parse) K_nodes (gd_nodes g)
    \<and> list_all2 (graphology_edge_projects parse) K_edges (gd_edges g)
    \<and> (\<forall>(n, data)\<in>set G_nodes. has_coordinates data \<longrightarrow>
          (\<exists>nd. map_of (doc_nodes d) (str n) = Some nd \<and> node_projects parse (n, data) nd))
    \<and> list_all2 (edge_projects parse) (filter (kept (doc_nodes d)) G_edges) (doc_edges d)"
proof -
  from assms(1) have kn: "graphology_nodes parse K_nodes = Inr (gd_nodes g)"
    and ke: "graphology_edges parse {||} K_edges = Inr (gd_edges g)"
    by (auto simp: to_graphology_json_def split: sum.splits)
  note parts = process_parts[OF assms(2)]
  have a: "list_all2 (graphology_node_projects parse) K_nodes (gd_nodes g)"
    using graphology_nodes_rel[OF kn] .
  have b: "list_all2 (graphology_edge_projects parse) K_edges (gd_edges g)"
    using graphology_edges_rel[OF ke] .
  have c: "\<forall>(n, data)\<in>set G_nodes. has_coordinates data \<longrightarrow>
          (\<exists>nd. map_of (doc_nodes d) (str n) = Some nd \<and> node_projects parse (n, data) nd)"
    using extract_nodes_values[OF parts(1) assms(3)] by blast
  have e: "list_all2 (edge_projects parse) (filter (kept (doc_nodes d)) G_edges) (doc_edges d)"
    using extract_edges_rel[OF parts(2)] edge_of_projects
    by (rule list_all2_mono)
  from a b c e show ?thesis by blast
qed

text \<open>
  C6, as stated, fails: it has the edge's name default to null in undirected-simple mode.
  An edge without tags is exported with the empty string as its name.
\<close>

theorem undirected_edge_name_defaults_to_empty_string:
  "(case process_network_for_javascript Map.empty
      [(1, [(''y'', PFloat (Finite 1)), (''x'', PFloat (Finite 2))]), (2, [(''y'', PFloat (Finite 3)), (''x'', PFloat (Finite 4))])]
      [(1, 2, [])]
    of Inl e \<Rightarrow> [] | Inr d \<Rightarrow> map e_properties (doc_edges d))
   = [[(''highway'', PStr ''path''), (''name'', PStr []), (''length'', PFloat (Finite 0)),
       (''width'', PNone), (''surface'', PNone), (''lit'', PNone), (''foot'', PStr ''yes'')]]
   \<and> PStr [] \<noteq> PNone"
  by (simp add: process_network_for_javascript_def contains_def subscript_def get_def
      edge_properties_def edge_id_def append_entry_def)

theorem attribute_projection_defaults_witness:
  "(case to_graphology_json Map.empty [(1, [(''y'', PInt 59), (''x'', PFloat (Finite 17))])] [(1, 1, 0, [])]
    of Inl e \<Rightarrow> ([], []) | Inr g \<Rightarrow> (gd_nodes g, gd_edges g))
   = ([\<lparr> gn_key = ''1'', gn_lat = Finite 59, gn_lng = Finite 17, gn_highway = PStr ''intersection'',
         gn_name = PStr [] \<rparr>],
      [\<lparr> ge_key = ''1-1-0'', ge_source = ''1'', ge_target = ''1'', ge_highway = PStr ''path'',
         ge_length = Finite 0, ge_surface = PStr [], ge_foot = PStr ''yes'' \<rparr>])
   \<and> (case process_network_for_javascript Map.empty
        [(1, [(''y'', PInt 59), (''x'', PFloat (Finite 17))])] [(1, 1, [(''lit'', PStr ''yes'')])]
      of Inl e \<Rightarrow> ([], []) | Inr d \<Rightarrow> (doc_nodes d, map e_properties (doc_edges d)))
     = ([(''1'', \<lparr> n_id = ''1'', n_lat = Finite 59, n_lng = Finite 17, n_highway = PStr ''intersection'',
                  n_name = PStr [], n_intersection = PBool False \<rparr>)],
        [[(''highway'', PStr ''path''), (''name'', PStr []), (''length'', PFloat (Finite 0)),
          (''width'', PNone), (''surface'', PNone), (''lit'', PStr ''yes''),
          (''foot'', PStr ''yes'')]])"
  (is "(case ?k of Inl e \<Rightarrow> ([], []) | Inr g \<Rightarrow> ?f g) = ?kr
     \<and> (case ?p of Inl e \<Rightarrow> ([], []) | Inr d \<Rightarrow> ?h d) = ?pr")
proof -
  have f59: "float_of_int 59 = Inr (Finite 59)"
    using float_of_int_exact[of 59] by simp
  have ev1: "(case ?k of Inl e \<Rightarrow> ([], []) | Inr g \<Rightarrow> ?f g) = ?kr"
    by (simp add: to_graphology_json_def graphology_node_of_def subscript_def get_def
        base_key_def unique_key.simps Let_def f59)
  have ev2: "(case ?p of Inl e \<Rightarrow> ([], []) | Inr d \<Rightarrow> ?h d) = ?pr"
    by (simp add: process_network_for_javascript_def contains_def subscript_def get_def
        edge_properties_def edge_id_def append_entry_def f59)
  from ev1 obtain g where h1: "?k = Inr g" by (cases ?k) auto
  from ev2 obtain d where h2: "?p = Inr d" by (cases ?p) auto
  have dist: "distinct (map fst [(1::int, [(''y'', PInt 59), (''x'', PFloat (Finite 17))])])" by simp
  from attribute_projection_defaults[OF h1 h2 dist] ev1 ev2 show ?thesis by simp
qed

subsection \<open>Export\<close>

lemma path_join_inj: "path_join d a = path_join d b \<longleftrightarrow> a = b"
  by (auto simp: path_join_def)

text \<open>The three files of a run, in the order the run writes them.\<close>

definition full_path :: "string \<Rightarrow> string" where
  "full_path output_dir = path_join output_dir ''kista_walk_network.json''"

definition areas_path :: "string \<Rightarrow> string" where
  "areas_path output_dir = path_join output_dir ''walkable_areas.json''"

definition graph_path :: "string \<Rightarrow> string" where
  "graph_path output_dir = path_join output_dir ''walk_graph.json''"

lemma paths_distinct:
  "full_path d \<noteq> areas_path d" "full_path d \<noteq> graph_path d" "areas_path d \<noteq> graph_path d"
  "areas_path d \<noteq> full_path d" "graph_path d \<noteq> full_path d" "graph_path d \<noteq> areas_path d"
  by (simp_all add: full_path_def areas_path_def graph_path_def path_join_inj)

text \<open>
  C7, as amended. The export writes the full document, the walkable areas and the
  adjacency mapping in this order, stops at the first failure and takes nothing back. It
  raises exactly when creating the directory or one of the three writes fails, and the
  error is that of the first failing step; a run that raises nothing has written all three
  files completely; a run that raises has not written the adjacency file completely; a file
  is touched only after every file before it was written completely; no other path is
  touched; when the directory cannot be created or the first file cannot be opened, nothing
  is written at all. The final state of each of the three files is determined: a file is
  as it was before the run when the run did not reach it or could not open it, it is
  truncated when its dump failed, and it holds its complete content otherwise, whatever
  happens to the files after it.
\<close>

theorem export_stops_at_first_failure:
  assumes "export_network makedirs_ok io fs data output_dir = (fs', r)"
  shows "(isl r \<longleftrightarrow> \<not> (makedirs_ok
            \<and> get io (full_path output_dir) Succeeds = Succeeds
            \<and> get io (areas_path output_dir) Succeeds = Succeeds
            \<and> get io (graph_path output_dir) Succeeds = Succeeds))
    \<and> (\<not> isl r \<longrightarrow>
          map_of fs' (full_path output_dir) = Some (Complete (FullDocument data))
          \<and> map_of fs' (areas_path output_dir)
              = Some (Complete (WalkableAreas (doc_walkable_areas data)))
          \<and> map_of fs' (graph_path output_dir) = Some (Complete (Graph (doc_graph data))))
    \<and> (isl r \<longrightarrow>
          map_of fs' (graph_path output_dir) = map_of fs (graph_path output_dir)
          \<or> map_of fs' (graph_path output_dir) = Some Truncated)
    \<and> (map_of fs' (areas_path output_dir) \<noteq> map_of fs (areas_path output_dir) \<longrightarrow>
          map_of fs' (full_path output_dir) = Some (Complete (FullDocument data)))
    \<and> (map_of fs' (graph_path output_dir) \<noteq> map_of fs (graph_path output_dir) \<longrightarrow>
          map_of fs' (full_path output_dir) = Some (Complete (FullDocument data))
          \<and> map_of fs' (areas_path output_dir)
              = Some (Complete (WalkableAreas (doc_walkable_areas data))))
    \<and> (\<forall>q. q \<noteq> full_path output_dir \<and> q \<noteq> areas_path output_dir
            \<and> q \<noteq> graph_path output_dir \<longrightarrow> map_of fs' q = map_of fs q)
    \<and> (\<not> makedirs_ok \<or> get io (full_path output_dir) Succeeds = OpenFails \<longrightarrow> fs' = fs)
    \<and> map_of fs' (full_path output_dir) =
        (if \<not> makedirs_ok \<or> get io (full_path output_dir) Succeeds = OpenFails
         then map_of fs (full_path output_dir)
         else if get io (full_path output_dir) Succeeds = DumpFails then Some Truncated
         else Some (Complete (FullDocument data)))
    \<and> map_of fs' (areas_path output_dir) =
        (if \<not> makedirs_ok \<or> get io (full_path output_dir) Succeeds \<noteq> Succeeds
            \<or> get io (areas_path output_dir) Succeeds = OpenFails
         then map_of fs (areas_path output_dir)
         else if get io (areas_path output_dir) Succeeds = DumpFails then Some Truncated
         else Some (Complete (WalkableAreas (doc_walkable_areas data))))
    \<and> map_of fs' (graph_path output_dir) =
        (if \<not> makedirs_ok \<or> get io (full_path output_dir) Succeeds \<noteq> Succeeds
            \<or> get io (areas_path output_dir) Succeeds \<noteq> Succeeds
            \<or> get io (graph_path output_dir) Succeeds = OpenFails
         then map_of fs (graph_path output_dir)
         else if get io (graph_path output_dir) Succeeds = DumpFails then Some Truncated
         else Some (Complete (Graph (doc_graph data))))
    \<and> r =
        (if \<not> makedirs_ok then Inl (OSError output_dir)
         else if get io (full_path output_dir) Succeeds \<noteq> Succeeds
           then Inl (OSError (full_path output_dir))
         else if get io (areas_path output_dir) Succeeds \<noteq> Succeeds
           then Inl (OSError (areas_path output_dir))
         else if get io (graph_path output_dir) Succeeds \<noteq> Succeeds
           then Inl (OSError (graph_path output_dir))
         else Inr ())"
proof -
  note pd = paths_distinct[of output_dir]
  show ?thesis
  proof (cases makedirs_ok)
    case False
    with assms show ?thesis by (auto simp: export_network_def)
  next
    case True
    show ?thesis
    proof (cases "get io (full_path output_dir) Succeeds")
      case OpenFails
      with assms True show ?thesis
        by (auto simp: export_network_def write_json_def full_path_def[symmetric])
    next
      case DumpFails
      with assms True pd show ?thesis
        by (auto simp: export_network_def write_json_def full_path_def[symmetric] update_conv')
    next
      case o1: Succeeds
      show ?thesis
      proof (cases "get io (areas_path output_dir) Succeeds")
        case OpenFails
        with assms True o1 pd show ?thesis
          by (auto simp: export_network_def write_json_def full_path_def[symmetric]
              areas_path_def[symmetric] update_conv')
      next
        case DumpFails
        with assms True o1 pd show ?thesis
          by (auto simp: export_network_def write_json_def full_path_def[symmetric]
              areas_path_def[symmetric] update_conv')
      next
        case o2: Succeeds
        show ?thesis
        proof (cases "get io (graph_path output_dir) Succeeds")
          case OpenFails
          with assms True o1 o2 pd show ?thesis
            by (auto simp: export_network_def write_json_def full_path_def[symmetric]
                areas_path_def[symmetric] graph_path_def[symmetric] update_conv')
        next
          case DumpFails
          with assms True o1 o2 pd show ?thesis
            by (auto simp: export_network_def write_json_def full_path_def[symmetric]
                areas_path_def[symmetric] graph_path_def[symmetric] update_conv')
        next
          case Succeeds
          with assms True o1 o2 pd show ?thesis
            by (auto simp: export_network_def write_json_def full_path_def[symmetric]
                areas_path_def[symmetric] graph_path_def[symmetric] update_conv')
        qed
      qed
    qed
  qed
qed

text \<open>
  C7, as stated, fails: there is no transaction across the three files. When the second
  file cannot be opened, the run aborts with the full document written and the two other
  files missing.
\<close>

theorem export_leaves_partial_output:
  "export_network True [(''../src/data/walkable_areas.json'', OpenFails)] []
     \<lparr> doc_metadata =
         \<lparr> area = ''Kista, Stockholm'', md_bounds = kista_bounds,
           node_count = 0, edge_count = 0, generated_at = ''2024-01-01T00:00:00Z'' \<rparr>,
       doc_nodes = [], doc_edges = [], doc_walkable_areas = [], doc_graph = [] \<rparr>
     ''../src/data''
   = ([(''../src/data/kista_walk_network.json'',
        Complete (FullDocument
          \<lparr> doc_metadata =
              \<lparr> area = ''Kista, Stockholm'', md_bounds = kista_bounds,
                node_count = 0, edge_count = 0, generated_at = ''2024-01-01T00:00:00Z'' \<rparr>,
            doc_nodes = [], doc_edges = [], doc_walkable_areas = [], doc_graph = [] \<rparr>))],
      Inl (OSError ''../src/data/walkable_areas.json''))"
  by (simp add: export_network_def write_json_def path_join_def get_def)

theorem export_stops_at_first_failure_witness:
  "export_network True [(''out/walk_graph.json'', DumpFails)] []
     \<lparr> doc_metadata =
         \<lparr> area = ''Kista, Stockholm'', md_bounds = kista_bounds,
           node_count = 0, edge_count = 0, generated_at = ''2024-01-01T00:00:00Z'' \<rparr>,
       doc_nodes = [], doc_edges = [], doc_walkable_areas = [], doc_graph = [] \<rparr>
     ''out''
   = ([(''out/kista_walk_network.json'',
        Complete (FullDocument
          \<lparr> doc_metadata =
              \<lparr> area = ''Kista, Stockholm'', md_bounds = kista_bounds,
                node_count = 0, edge_count = 0, generated_at = ''2024-01-01T00:00:00Z'' \<rparr>,
            doc_nodes = [], doc_edges = [], doc_walkable_areas = [], doc_graph = [] \<rparr>)),
       (''out/walkable_areas.json'', Complete (WalkableAreas [])),
       (''out/walk_graph.json'', Truncated)],
      Inl (OSError ''out/walk_graph.json''))"
  (is "?run = (?fs, ?r)")
proof -
  have h: "?run = (?fs, ?r)"
    by (simp add: export_network_def write_json_def path_join_def get_def)
  from export_stops_at_first_failure[OF h] h show ?thesis by simp
qed

subsection \<open>JSON round trip\<close>

lemma dict_of_pairs_distinct:
  assumes "distinct (map fst ps)"
  shows "dict_of_pairs ps = ps"
proof -
  have "distinct (map fst (acc @ ps)) \<Longrightarrow>
      foldl (\<lambda>d kv. AList.update (fst kv) (snd kv) d) acc ps = acc @ ps" for acc
  proof (induction ps arbitrary: acc)
    case Nil
    then show ?case by simp
  next
    case (Cons p ps)
    from Cons.prems have fresh: "fst p \<notin> fst ` set acc" by auto
    have "foldl (\<lambda>d kv. AList.update (fst kv) (snd kv) d) (acc @ [p]) ps = (acc @ [p]) @ ps"
      using Cons.prems by (intro Cons.IH) simp
    then show ?case using update_fresh[OF fresh, of "snd p"] by simp
  qed
  from this[of "[]"] assms show ?thesis by (simp add: dict_of_pairs_def)
qed

lemma json_of_float_loads: "json_loads (json_of_float f) = OFloat f"
  by (cases f) simp_all

lemma json_round_trip: "wf_obj v \<Longrightarrow> json_loads (json_dumps v) = v"
proof (induction v)
  case (OList xs)
  then have "map (json_loads \<circ> json_dumps) xs = xs"
    by (intro map_idI) (auto simp: list_all_iff)
  then show ?case by simp
next
  case (ODict d)
  from ODict.prems have dist: "distinct (map fst d)" by simp
  have "map (map_prod id json_loads \<circ> map_prod id json_dumps) d = d"
  proof (rule map_idI)
    fix kv assume kv: "kv \<in> set d"
    with ODict.prems have "wf_obj (snd kv)" by (auto simp: list_all_iff)
    moreover have "snd kv \<in> Basic_BNFs.snds kv" by (cases kv) simp
    ultimately have "json_loads (json_dumps (snd kv)) = snd kv" using ODict.IH kv by blast
    then show "(map_prod id json_loads \<circ> map_prod id json_dumps) kv = kv" by (cases kv) simp
  qed
  then have m: "map (map_prod id json_loads) (map (map_prod id json_dumps) d) = d" by simp
  show ?case
    unfolding json_dumps.simps json_loads.simps m using dict_of_pairs_distinct[OF dist] by simp
qed (simp_all add: json_of_float_loads)

lemma float_eq_self: "float_eq f f = (f \<noteq> NaN)"
  by (cases f) simp_all

lemma py_eq_self: "wf_obj v \<Longrightarrow> py_eq v v = nan_free v"
proof (induction v)
  case (OList xs)
  then have "\<And>x. x \<in> set xs \<Longrightarrow> py_eq x x = nan_free x" by (auto simp: list_all_iff)
  then show ?case by (simp add: list_all2_same list_all_iff)
next
  case (ODict d)
  from ODict.prems have dist: "distinct (map fst d)" by simp
  have "(case map_of d (fst kv) of None \<Rightarrow> False | Some w \<Rightarrow> py_eq (snd kv) w) = nan_free (snd kv)"
    if kv: "kv \<in> set d" for kv
  proof -
    from kv dist have "map_of d (fst kv) = Some (snd kv)"
      by (cases kv) (auto intro: map_of_is_SomeI)
    moreover from kv ODict.prems have "wf_obj (snd kv)" by (auto simp: list_all_iff)
    moreover have "snd kv \<in> Basic_BNFs.snds kv" by (cases kv) simp
    ultimately show ?thesis using ODict.IH kv by simp
  qed
  then show ?case by (simp add: list_all_iff)
qed (simp_all add: float_eq_self)

lemma wf_obj_of: "wf_obj (obj_of v)"
  by (induction v) (simp_all add: list_all_iff)

lemma wf_attrs_value: "distinct (map fst props) \<Longrightarrow> wf_obj (attrs_value props)"
  by (simp add: attrs_value_def list_all_iff wf_obj_of comp_def)

lemma wf_node_value: "wf_obj (node_value n)"
  by (simp add: node_value_def wf_obj_of)

lemma wf_coordinate_value: "wf_obj (coordinate_value c)"
  by (simp add: coordinate_value_def)

lemma wf_entry_value: "wf_obj (entry_value a)"
  by (simp add: entry_value_def wf_obj_of)

lemma wf_metadata_value: "wf_obj (metadata_value m)"
  by (simp add: metadata_value_def)

lemma wf_edge_value: "distinct (map fst (e_properties e)) \<Longrightarrow> wf_obj (edge_value e)"
  by (simp add: edge_value_def wf_attrs_value wf_coordinate_value list_all_iff)

lemma wf_area_value: "distinct (map fst (w_properties w)) \<Longrightarrow> wf_obj (area_value w)"
  by (simp add: area_value_def wf_attrs_value wf_coordinate_value list_all_iff)

lemma wf_nodes_value: "distinct (map fst nodes) \<Longrightarrow> wf_obj (nodes_value nodes)"
  by (simp add: nodes_value_def list_all_iff wf_node_value comp_def)

lemma wf_graph_value: "distinct (map fst graph) \<Longrightarrow> wf_obj (graph_value graph)"
  by (simp add: graph_value_def list_all_iff wf_entry_value comp_def)

lemma wf_doc_value:
  assumes "process_network_for_javascript parse G_nodes G_edges = Inr d"
  shows "wf_obj (doc_value d)"
proof -
  note parts = process_parts[OF assms]
  have dn: "distinct (map fst (doc_nodes d))"
    using extract_nodes_distinct[OF parts(1)] by simp
  have dg: "distinct (map fst (doc_graph d))"
    using process_graph(1)[OF assms] dn by simp
  have pe: "distinct (map fst (e_properties e))" if "e \<in> set (doc_edges d)" for e
  proof -
    from extract_edges_members[OF parts(2) that] obtain data where
      "edge_properties parse data = Inr (e_properties e)" by (auto simp: edge_of_def)
    from edge_properties_keys[OF this] show ?thesis by simp
  qed
  have edges: "list_all wf_obj (map edge_value (doc_edges d))"
    using pe by (simp add: list_all_iff wf_edge_value)
  have areas: "list_all wf_obj (map area_value (doc_walkable_areas d))"
    using pe by (simp add: parts(4) list_all_iff wf_area_value walkable_area_of_def)
  show ?thesis
    using edges areas
    by (simp add: doc_value_def wf_metadata_value wf_nodes_value[OF dn] wf_graph_value[OF dg])
qed

lemma document_round_trip:
  assumes "process_network_for_javascript parse G_nodes G_edges = Inr d"
  shows "json_loads (json_dumps (doc_value d)) = doc_value d"
    and "py_eq (json_loads (json_dumps (doc_value d))) (doc_value d) = nan_free (doc_value d)"
  using json_round_trip[OF wf_doc_value[OF assms]] py_eq_self[OF wf_doc_value[OF assms]]
  by simp_all

text \<open>
  C9, as amended. For every document that the undirected-simple pipeline returns,
  serializing it to JSON and parsing it back yields the same value tree as the original,
  and the parsed document is equal to the original (Python's \<^verbatim>\<open>==\<close>, which disregards
  the order of dict keys) exactly when no float of the document is a not-a-number.
\<close>

theorem json_round_trip_equal_unless_nan:
  assumes "process_network_for_javascript parse G_nodes G_edges = Inr d"
  shows "json_loads (json_dumps (doc_value d)) = doc_value d
    \<and> (py_eq (json_loads (json_dumps (doc_value d))) (doc_value d)
          \<longleftrightarrow> nan_free (doc_value d))"
  using document_round_trip[OF assms] by simp

text \<open>
  C9, as stated, fails: a raw edge whose length tag is the float not-a-number is exported
  with that length, JSON carries it as \<^verbatim>\<open>NaN\<close>, and the parsed document is not equal to
  the original, since a not-a-number is not equal to itself.
\<close>

theorem round_trip_of_nan_length_not_equal:
  "\<not> (case process_network_for_javascript Map.empty
          [(1, [(''y'', PFloat (Finite 1)), (''x'', PFloat (Finite 2))])]
          [(1, 1, [(''length'', PFloat NaN)])]
        of Inl e \<Rightarrow> True
         | Inr d \<Rightarrow> py_eq (json_loads (json_dumps (doc_value d))) (doc_value d))"
  (is "\<not> (case ?run of Inl e \<Rightarrow> True | Inr d \<Rightarrow> ?eq d)")
proof -
  have "\<exists>d. ?run = Inr d \<and> \<not> nan_free (doc_value d)"
    by (simp add: process_network_for_javascript_def contains_def subscript_def get_def
        edge_properties_def edge_id_def append_entry_def walkable_area_of_def
        doc_value_def edge_value_def attrs_value_def)
  then obtain d where h: "?run = Inr d" and n: "\<not> nan_free (doc_value d)" by blast
  from document_round_trip(2)[OF h] n have "\<not> ?eq d" by simp
  with h show ?thesis by simp
qed

theorem json_round_trip_equal_unless_nan_witness:
  "(case process_network_for_javascript Map.empty
      [(1, [(''y'', PFloat (Finite 1)), (''x'', PFloat (Finite 2))]),
       (2, [(''y'', PFloat (Finite 3)), (''x'', PFloat PosInf)])]
      [(1, 2, [(''length'', PFloat (Finite 7)), (''lit'', PList [PStr ''yes'', PInt 1])])]
    of Inl e \<Rightarrow> False
     | Inr d \<Rightarrow> py_eq (json_loads (json_dumps (doc_value d))) (doc_value d))"
  (is "(case ?run of Inl e \<Rightarrow> False | Inr d \<Rightarrow> ?eq d)")
proof -
  have "\<exists>d. ?run = Inr d \<and> nan_free (doc_value d)"
    by (simp add: process_network_for_javascript_def contains_def subscript_def get_def
        edge_properties_def edge_id_def append_entry_def walkable_area_of_def
        doc_value_def edge_value_def attrs_value_def nodes_value_def node_value_def
        area_value_def graph_value_def entry_value_def metadata_value_def
        coordinate_value_def determine_area_type_def)
  then obtain d where h: "?run = Inr d" and n: "nan_free (doc_value d)" by blast
  from json_round_trip_equal_unless_nan[OF h] n have "?eq d" by blast
  with h show ?thesis by simp
qed

end
